theory Spec2Isabelle
  imports Main
begin

section \<open>JavaScript strings\<close>

text \<open>
  A JavaScript string is a sequence of UTF-16 code units. The model is \<^typ>\<open>string\<close>: one
  \<^typ>\<open>char\<close> is one code unit below 256 (ASCII and Latin-1), so \<^const>\<open>length\<close> is
  \<^verbatim>\<open>.length\<close>. Every character class and case mapping below is the restriction of the
  JavaScript one to these code units.
\<close>

definition code :: "char \<Rightarrow> nat" where
  "code c = of_char c"

definition inRange :: "nat \<Rightarrow> nat \<Rightarrow> char \<Rightarrow> bool" where
  "inRange lo hi c = (lo \<le> code c \<and> code c \<le> hi)"

text \<open>\<^verbatim>\<open>\d\<close>\<close>

definition isDigit :: "char \<Rightarrow> bool" where
  "isDigit c = inRange 48 57 c"

text \<open>
  \<^verbatim>\<open>\s\<close>, and the characters \<^verbatim>\<open>trim()\<close> removes: tab, line feed, vertical tab, form feed,
  carriage return, space and no-break space.
\<close>

definition isSpace :: "char \<Rightarrow> bool" where
  "isSpace c = (inRange 9 13 c \<or> code c = 32 \<or> code c = 160)"

text \<open>\<^verbatim>\<open>\w\<close>, which decides the word boundary \<^verbatim>\<open>\b\<close>.\<close>

definition isWordChar :: "char \<Rightarrow> bool" where
  "isWordChar c = (inRange 48 57 c \<or> inRange 65 90 c \<or> inRange 97 122 c \<or> code c = 95)"

definition newline :: char where
  "newline = CHR 0x0A"

definition carriageReturn :: char where
  "carriageReturn = CHR 0x0D"

text \<open>The class \<^verbatim>\<open>[\\/:*?"<>|]\<close> of characters no file name may hold.\<close>

definition illegalChars :: "char list" where
  "illegalChars = [CHR 0x5C, CHR ''/'', CHR '':'', CHR ''*'', CHR ''?'', CHR 0x22,
     CHR ''<'', CHR ''>'', CHR ''|'']"

definition isIllegal :: "char \<Rightarrow> bool" where
  "isIllegal c = (c \<in> set illegalChars)"

text \<open>
  \<^verbatim>\<open>toLowerCase()\<close>: A-Z and the Latin-1 capitals U+00C0..U+00DE (without the
  multiplication sign U+00D7) move up by 32; every other code unit below 256 stays.
\<close>

definition upperChars :: "char list" where
  "upperChars = ''ABCDEFGHIJKLMNOPQRSTUVWXYZ'' @
     [CHR 0xC0, CHR 0xC1, CHR 0xC2, CHR 0xC3, CHR 0xC4, CHR 0xC5, CHR 0xC6, CHR 0xC7,
      CHR 0xC8, CHR 0xC9, CHR 0xCA, CHR 0xCB, CHR 0xCC, CHR 0xCD, CHR 0xCE, CHR 0xCF,
      CHR 0xD0, CHR 0xD1, CHR 0xD2, CHR 0xD3, CHR 0xD4, CHR 0xD5, CHR 0xD6,
      CHR 0xD8, CHR 0xD9, CHR 0xDA, CHR 0xDB, CHR 0xDC, CHR 0xDD, CHR 0xDE]"

definition lowerChars :: "char list" where
  "lowerChars = ''abcdefghijklmnopqrstuvwxyz'' @
     [CHR 0xE0, CHR 0xE1, CHR 0xE2, CHR 0xE3, CHR 0xE4, CHR 0xE5, CHR 0xE6, CHR 0xE7,
      CHR 0xE8, CHR 0xE9, CHR 0xEA, CHR 0xEB, CHR 0xEC, CHR 0xED, CHR 0xEE, CHR 0xEF,
      CHR 0xF0, CHR 0xF1, CHR 0xF2, CHR 0xF3, CHR 0xF4, CHR 0xF5, CHR 0xF6,
      CHR 0xF8, CHR 0xF9, CHR 0xFA, CHR 0xFB, CHR 0xFC, CHR 0xFD, CHR 0xFE]"

definition toLowerChar :: "char \<Rightarrow> char" where
  "toLowerChar c = (case map_of (zip upperChars lowerChars) c of Some l \<Rightarrow> l | None \<Rightarrow> c)"

definition toLowerCase :: "string \<Rightarrow> string" where
  "toLowerCase s = map toLowerChar s"

text \<open>\<^verbatim>\<open>s.trim()\<close>\<close>

definition trim :: "string \<Rightarrow> string" where
  "trim s = rev (dropWhile isSpace (rev (dropWhile isSpace s)))"

text \<open>
  \<^verbatim>\<open>s.replace(/C+/g, r)\<close> for a character class \<open>C\<close>: every maximal run of characters of
  the class becomes one copy of \<open>r\<close>. The flag says that the previous character was in the
  class, so the run has been replaced already.
\<close>

fun replaceRuns :: "(char \<Rightarrow> bool) \<Rightarrow> string \<Rightarrow> bool \<Rightarrow> string \<Rightarrow> string" where
  "replaceRuns C r inRun [] = []"
| "replaceRuns C r inRun (c # cs) =
     (if C c then (if inRun then replaceRuns C r True cs else r @ replaceRuns C r True cs)
      else c # replaceRuns C r False cs)"

text \<open>\<^verbatim>\<open>s.replace(/\s+/g, " ")\<close>\<close>

definition collapseWhitespace :: "string \<Rightarrow> string" where
  "collapseWhitespace s = replaceRuns isSpace '' '' False s"

text \<open>\<^verbatim>\<open>s.replace(/[\\/:*?"<>|]/g, "")\<close>\<close>

definition stripIllegal :: "string \<Rightarrow> string" where
  "stripIllegal s = filter (\<lambda>c. \<not> isIllegal c) s"

text \<open>\<^verbatim>\<open>hay.indexOf(needle)\<close>; \<open>None\<close> is the result \<open>-1\<close>.\<close>

fun indexOf :: "string \<Rightarrow> string \<Rightarrow> nat option" where
  "indexOf [] needle = (if needle = [] then Some 0 else None)"
| "indexOf (c # cs) needle =
     (if take (length needle) (c # cs) = needle then Some 0
      else map_option Suc (indexOf cs needle))"

text \<open>\<^verbatim>\<open>s.replace(a, b)\<close> with a string pattern: the first occurrence only.\<close>

definition replaceFirst :: "string \<Rightarrow> string \<Rightarrow> string \<Rightarrow> string" where
  "replaceFirst a b s =
     (case indexOf s a of None \<Rightarrow> s
      | Some i \<Rightarrow> take i s @ b @ drop (i + length a) s)"

section \<open>Name sanitizers\<close>

text \<open>\<^verbatim>\<open>safeName\<close> of the serverless handler (api/merge-pdfs.ts).\<close>

definition safeName :: "string \<Rightarrow> string" where
  "safeName s = trim (collapseWhitespace (stripIllegal s))"

text \<open>\<^verbatim>\<open>safePdfFileName\<close> of the single-backend server: as above, and never empty.\<close>

definition safePdfFileName :: "string \<Rightarrow> string" where
  "safePdfFileName name =
     (let cleaned = trim (collapseWhitespace (stripIllegal name))
      in if length cleaned \<noteq> 0 then cleaned else ''Documento'')"

text \<open>\<^verbatim>\<open>safeFilenamePart\<close> of the in-browser variant: as \<^const>\<open>safeName\<close>, cut at 140.\<close>

definition safeFilenamePart :: "string \<Rightarrow> string" where
  "safeFilenamePart s = take 140 (trim (collapseWhitespace (stripIllegal s)))"

section \<open>Candidate sanitizer\<close>

definition stopWords :: "string list" where
  "stopWords = [''fattura'', ''data'', ''del'', ''competenza'', ''codice'', ''p.iva'',
     ''partita'', ''email'', ''telefono'', ''indirizzo'', ''via'', ''pagina'']"

text \<open>
  One round of the loop over the stop words:
  \<^verbatim>\<open>const idx = s.toLowerCase().indexOf(` ${w}`); if (idx > 0) s = s.slice(0, idx).trim();\<close>
\<close>

definition cutAtStopWord :: "string \<Rightarrow> string \<Rightarrow> string" where
  "cutAtStopWord s w =
     (case indexOf (toLowerCase s) ('' '' @ w) of
        None \<Rightarrow> s
      | Some idx \<Rightarrow> if idx > 0 then trim (take idx s) else s)"

text \<open>\<^verbatim>\<open>/^[\d\s/.-]+$/.test(s)\<close>\<close>

definition isReferenceChar :: "char \<Rightarrow> bool" where
  "isReferenceChar c = (isDigit c \<or> isSpace c \<or> c = CHR ''/'' \<or> c = CHR ''.'' \<or> c = CHR ''-'')"

definition looksLikeReference :: "string \<Rightarrow> bool" where
  "looksLikeReference s = (s \<noteq> [] \<and> list_all isReferenceChar s)"

text \<open>\<^verbatim>\<open>cleanupCandidateName\<close>; \<open>None\<close> is \<^verbatim>\<open>null\<close>, the rejection.\<close>

definition cleanupCandidateName :: "string \<Rightarrow> string option" where
  "cleanupCandidateName raw =
     (let s0 = trim (collapseWhitespace (stripIllegal raw));
          s = foldl cutAtStopWord s0 stopWords
      in if length s < 4 then None
         else if looksLikeReference s then None
         else Some s)"

section \<open>Regular expressions\<close>

text \<open>
  The regular expressions of the sources are transcribed with backtracking combinators, in
  the style of the ECMAScript matcher: a matcher takes the continuation (what the rest of
  the pattern does with the remaining input) and the input still to be read; \<open>None\<close> is
  failure, and an alternative is tried only when the one before it has failed with its
  whole continuation.
\<close>

type_synonym 'a cont = "string \<Rightarrow> 'a option"

type_synonym 'a matcher = "'a cont \<Rightarrow> string \<Rightarrow> 'a option"

text \<open>One character of a class.\<close>

fun oneOf :: "(char \<Rightarrow> bool) \<Rightarrow> 'a matcher" where
  "oneOf C k [] = None"
| "oneOf C k (c # cs) = (if C c then k cs else None)"

text \<open>\<^verbatim>\<open>C*\<close>, greedy: one more character first, the continuation here only if that fails.\<close>

fun many :: "(char \<Rightarrow> bool) \<Rightarrow> 'a matcher" where
  "many C k [] = k []"
| "many C k (c # cs) =
     (if C c then (case many C k cs of Some r \<Rightarrow> Some r | None \<Rightarrow> k (c # cs))
      else k (c # cs))"

text \<open>\<^verbatim>\<open>C+\<close>\<close>

definition many1 :: "(char \<Rightarrow> bool) \<Rightarrow> 'a matcher" where
  "many1 C k = oneOf C (many C k)"

text \<open>\<^verbatim>\<open>m?\<close>, greedy.\<close>

definition optional :: "'a matcher \<Rightarrow> 'a matcher" where
  "optional m k s = (case m k s of Some r \<Rightarrow> Some r | None \<Rightarrow> k s)"

text \<open>\<^verbatim>\<open>m1|m2\<close>\<close>

definition orElse :: "'a matcher \<Rightarrow> 'a matcher \<Rightarrow> 'a matcher" where
  "orElse m1 m2 k s = (case m1 k s of Some r \<Rightarrow> Some r | None \<Rightarrow> m2 k s)"

text \<open>Concatenation.\<close>

definition andThen :: "'a matcher \<Rightarrow> 'a matcher \<Rightarrow> 'a matcher" where
  "andThen m1 m2 k = m1 (m2 k)"

text \<open>A literal, and a literal under the flag \<^verbatim>\<open>i\<close>.\<close>

fun lit :: "string \<Rightarrow> 'a matcher" where
  "lit [] k = k"
| "lit (x # xs) k = oneOf (\<lambda>c. c = x) (lit xs k)"

fun litI :: "string \<Rightarrow> 'a matcher" where
  "litI [] k = k"
| "litI (x # xs) k = oneOf (\<lambda>c. toLowerChar c = toLowerChar x) (litI xs k)"

text \<open>The text read between two positions, each given by the input that remains there.\<close>

definition consumed :: "string \<Rightarrow> string \<Rightarrow> string" where
  "consumed s0 s1 = take (length s0 - length s1) s0"

text \<open>\<^verbatim>\<open>text.match(re)\<close> without the flag \<^verbatim>\<open>g\<close>: the leftmost position where \<open>re\<close> matches.\<close>

fun search :: "(string \<Rightarrow> 'a option) \<Rightarrow> string \<Rightarrow> 'a option" where
  "search m [] = m []"
| "search m (c # cs) = (case m (c # cs) of Some r \<Rightarrow> Some r | None \<Rightarrow> search m cs)"

text \<open>
  The same for a pattern that starts with \<^verbatim>\<open>\b\<close>: the search carries the character before
  the position.
\<close>

definition wordBoundary :: "char option \<Rightarrow> string \<Rightarrow> bool" where
  "wordBoundary prev s =
     ((case prev of None \<Rightarrow> False | Some p \<Rightarrow> isWordChar p)
      \<noteq> (case s of [] \<Rightarrow> False | c # _ \<Rightarrow> isWordChar c))"

fun searchAtBoundary :: "(string \<Rightarrow> 'a option) \<Rightarrow> char option \<Rightarrow> string \<Rightarrow> 'a option" where
  "searchAtBoundary m prev [] = (if wordBoundary prev [] then m [] else None)"
| "searchAtBoundary m prev (c # cs) =
     (case (if wordBoundary prev (c # cs) then m (c # cs) else None) of
        Some r \<Rightarrow> Some r
      | None \<Rightarrow> searchAtBoundary m (Some c) cs)"

section \<open>Identifier extractor and role classifier\<close>

text \<open>\<^verbatim>\<open>fileName.match(/(\d{2}-\d{4,})/)\<close>, group 1.\<close>

definition groupIdAt :: "string \<Rightarrow> string option" where
  "groupIdAt s =
     oneOf isDigit (oneOf isDigit (lit ''-''
       (oneOf isDigit (oneOf isDigit (oneOf isDigit (oneOf isDigit
         (many isDigit (\<lambda>rest. Some (consumed s rest))))))))) s"

definition extractGroupIdFromFilename :: "string \<Rightarrow> string option" where
  "extractGroupIdFromFilename fileName = search groupIdAt fileName"

text \<open>\<^verbatim>\<open>/allegato/i.test(fileName)\<close>\<close>

definition isAllegato :: "string \<Rightarrow> bool" where
  "isAllegato fileName = (search (litI ''allegato'' (\<lambda>_. Some ())) fileName \<noteq> None)"

text \<open>\<^verbatim>\<open>s.includes(t)\<close>\<close>

definition stringIncludes :: "string \<Rightarrow> string \<Rightarrow> bool" where
  "stringIncludes s t = (indexOf s t \<noteq> None)"

section \<open>Text normalizer\<close>

text \<open>\<^verbatim>\<open>t.replace(/\n{3,}/g, "\n\n")\<close>: a run of three or more line feeds becomes two.\<close>

function collapseNewlines :: "string \<Rightarrow> string" where
  "collapseNewlines [] = []"
| "collapseNewlines (c # cs) =
     (if c = newline
      then (let run = takeWhile (\<lambda>x. x = newline) (c # cs);
                rest = dropWhile (\<lambda>x. x = newline) cs
            in (if 3 \<le> length run then [newline, newline] else run) @ collapseNewlines rest)
      else c # collapseNewlines cs)"
  by pat_completeness auto
termination
  by (relation "measure length") (auto simp: less_Suc_eq_le length_dropWhile_le)

definition normalizeTextForSearch :: "string \<Rightarrow> string" where
  "normalizeTextForSearch t =
     trim (collapseNewlines
       (replaceRuns (\<lambda>c. c = CHR '' '' \<or> c = CHR 0x09) '' '' False
         (map (\<lambda>c. if c = carriageReturn then newline else c) t)))"

section \<open>Addressee extraction of the single-backend server\<close>

definition notNewline :: "char \<Rightarrow> bool" where
  "notNewline c = (c \<noteq> newline)"

text \<open>\<^verbatim>\<open>/Intestatario\s*:\s*([^\n]+)\n?/i\<close>, group 1.\<close>

definition sameLineAt :: "string \<Rightarrow> string option" where
  "sameLineAt s =
     litI ''Intestatario'' (many isSpace (lit '':'' (many isSpace
       (\<lambda>s1. many1 notNewline
          (\<lambda>s2. optional (oneOf (\<lambda>c. c = newline)) (\<lambda>_. Some (consumed s1 s2)) s2) s1)))) s"

text \<open>\<^verbatim>\<open>/Intestatario\s*:\s*\n\s*([^\n]+)\n?/i\<close>, group 1.\<close>

definition nextLineAt :: "string \<Rightarrow> string option" where
  "nextLineAt s =
     litI ''Intestatario'' (many isSpace (lit '':'' (many isSpace
       (oneOf (\<lambda>c. c = newline) (many isSpace
         (\<lambda>s1. many1 notNewline
            (\<lambda>s2. optional (oneOf (\<lambda>c. c = newline)) (\<lambda>_. Some (consumed s1 s2)) s2) s1)))))) s"

text \<open>
  The title pattern
  \<^verbatim>\<open>/\b(Dr\.?|Dott\.?ssa|Dott\.?|Sig\.?ra|Sig\.?r|Spett\.le|Gent\.mo|Egr\.?)\s+(W(?:\s+W){0,4})/i\<close>
  where \<open>W\<close> is a character of the class A-Z, U+00C0..U+00D6, U+00D8..U+00DD followed by one
  or more of the class A-Z, a-z, U+00C0..U+00D6, U+00D8..U+00F6, U+00F8..U+00FF, apostrophe,
  dot, hyphen. Under the flag \<^verbatim>\<open>i\<close> the first class holds the small letters too. (The
  typographic apostrophe U+2019 of the second class is no code unit below 256.)
\<close>

definition nameStart :: "char \<Rightarrow> bool" where
  "nameStart c = (inRange 65 90 c \<or> inRange 192 214 c \<or> inRange 216 221 c
     \<or> inRange 97 122 c \<or> inRange 224 246 c \<or> inRange 248 253 c)"

definition nameChar :: "char \<Rightarrow> bool" where
  "nameChar c = (inRange 65 90 c \<or> inRange 97 122 c \<or> inRange 192 214 c
     \<or> inRange 216 246 c \<or> inRange 248 255 c
     \<or> c = CHR 0x27 \<or> c = CHR ''.'' \<or> c = CHR ''-'')"

definition title :: "'a matcher" where
  "title =
     orElse (andThen (litI ''Dr'') (optional (lit ''.'')))
    (orElse (andThen (litI ''Dott'') (andThen (optional (lit ''.'')) (litI ''ssa'')))
    (orElse (andThen (litI ''Dott'') (optional (lit ''.'')))
    (orElse (andThen (litI ''Sig'') (andThen (optional (lit ''.'')) (litI ''ra'')))
    (orElse (andThen (litI ''Sig'') (andThen (optional (lit ''.'')) (litI ''r'')))
    (orElse (litI ''Spett.le'')
    (orElse (litI ''Gent.mo'')
         (andThen (litI ''Egr'') (optional (lit ''.'')))))))))"

definition nameWord :: "'a matcher" where
  "nameWord = andThen (oneOf nameStart) (many1 nameChar)"

definition moreWord :: "'a matcher" where
  "moreWord = andThen (many1 isSpace) nameWord"

definition nameWords :: "'a matcher" where
  "nameWords =
     andThen nameWord
       (optional (andThen moreWord
         (optional (andThen moreWord
           (optional (andThen moreWord
             (optional moreWord)))))))"

definition titledNameAt :: "string \<Rightarrow> (string \<times> string) option" where
  "titledNameAt s =
     title (\<lambda>s1. many1 isSpace
       (\<lambda>s2. nameWords (\<lambda>s3. Some (consumed s s1, consumed s2 s3)) s2) s1) s"

section \<open>PDF collaborators, uploads and responses\<close>

text \<open>
  The PDF libraries are parameters of the model. \<open>parse\<close> is pdf-parse: from the bytes of
  a document to its text (\<^verbatim>\<open>pdfData.text || ""\<close>), or an exception. \<open>load\<close> is
  \<^verbatim>\<open>PDFDocument.load\<close> followed by \<^verbatim>\<open>copyPages(doc, doc.getPageIndices())\<close>: from the bytes
  to the pages in their order, or an exception. A merged document is the list of the pages
  added to it, and so is what \<^verbatim>\<open>save()\<close> returns.
\<close>

datatype error = ParseError | TypeError

text \<open>An uploaded file: its name (\<^verbatim>\<open>originalname\<close> for multer) and its bytes.\<close>

record 'b upload =
  filename :: string
  buffer :: 'b

datatype 'z response = Status405 string | Status400 string | Status500 string | Status200 'z

text \<open>
  \<^verbatim>\<open>obj[k] = v\<close> on an object whose keys are no array indices, and the entries of an
  archive: a key keeps the place of its first assignment.
\<close>

fun setEntry :: "'k \<Rightarrow> 'v \<Rightarrow> ('k \<times> 'v) list \<Rightarrow> ('k \<times> 'v) list" where
  "setEntry k v [] = [(k, v)]"
| "setEntry k v (e # es) = (if fst e = k then (k, v) # es else e # setEntry k v es)"

text \<open>Truthiness of a string that may be \<^verbatim>\<open>null\<close>.\<close>

definition truthy :: "string option \<Rightarrow> bool" where
  "truthy x = (case x of None \<Rightarrow> False | Some s \<Rightarrow> s \<noteq> [])"

section \<open>The single-backend server\<close>

text \<open>
  The body of \<^verbatim>\<open>extractIntestatario\<close> from the normalized text on: three heuristics, each
  guarded by \<^verbatim>\<open>if (m?.[1])\<close> (\<^verbatim>\<open>if (m3)\<close> for the third) and \<^verbatim>\<open>if (cand)\<close>. The third
  candidate is \<^verbatim>\<open>`${m3[1]} ${m3[2]}`\<close>: the two groups of the match, a space between them.
\<close>

definition extractIntestatarioFromText :: "string \<Rightarrow> string option" where
  "extractIntestatarioFromText text =
     (let m1 = search sameLineAt text;
          cand1 = (case m1 of None \<Rightarrow> None
                   | Some g \<Rightarrow> if g \<noteq> [] then cleanupCandidateName g else None)
      in if truthy cand1 then cand1
         else
          (let m2 = search nextLineAt text;
               cand2 = (case m2 of None \<Rightarrow> None
                        | Some g \<Rightarrow> if g \<noteq> [] then cleanupCandidateName g else None)
           in if truthy cand2 then cand2
              else
               (let topChunk = take 2500 text;
                    m3 = searchAtBoundary titledNameAt None topChunk;
                    cand3 = (case m3 of None \<Rightarrow> None
                             | Some g \<Rightarrow> cleanupCandidateName (fst g @ '' '' @ snd g))
                in if truthy cand3 then cand3 else None)))"

text \<open>\<^verbatim>\<open>extractIntestatario\<close>: an exception of the parser is caught and gives \<^verbatim>\<open>null\<close>.\<close>

definition extractIntestatario :: "('b \<Rightarrow> error + string) \<Rightarrow> 'b \<Rightarrow> string option" where
  "extractIntestatario parse pdfBuffer =
     (case parse pdfBuffer of
        Inl e \<Rightarrow> None
      | Inr rawText \<Rightarrow>
          if rawText = [] \<or> length (trim rawText) = 0 then None
          else extractIntestatarioFromText (normalizeTextForSearch rawText))"

text \<open>The slots of a group: \<^verbatim>\<open>{ main?: File; allegato?: File }\<close>.\<close>

record 'b slots =
  main :: "'b upload option"
  allegato :: "'b upload option"

text \<open>One round of the grouping loop.\<close>

definition assignSlot :: "(string \<times> 'b slots) list \<Rightarrow> 'b upload \<Rightarrow> (string \<times> 'b slots) list" where
  "assignSlot groups f =
     (case extractGroupIdFromFilename (filename f) of
        None \<Rightarrow> groups
      | Some gid \<Rightarrow>
          (let g = (case map_of groups gid of
                      None \<Rightarrow> \<lparr>main = None, allegato = None\<rparr>
                    | Some g \<Rightarrow> g)
           in if isAllegato (filename f) then setEntry gid (g\<lparr>allegato := Some f\<rparr>) groups
              else setEntry gid (g\<lparr>main := Some f\<rparr>) groups))"

definition groupSlots :: "'b upload list \<Rightarrow> (string \<times> 'b slots) list" where
  "groupSlots files = foldl assignSlot [] files"

text \<open>
  \<^verbatim>\<open>`${suffix}`\<close> for a counter: the decimal digits. The counter is a \<^typ>\<open>nat\<close>; the
  JavaScript number is exact below \<open>2^53\<close>, more than an archive has entries.
\<close>

definition digitChar :: "nat \<Rightarrow> char" where
  "digitChar d = ''0123456789'' ! d"

fun numberToString :: "nat \<Rightarrow> string" where
  "numberToString n =
     (if n < 10 then [digitChar n] else numberToString (n div 10) @ [digitChar (n mod 10)])"

declare numberToString.simps [simp del]

text \<open>\<^verbatim>\<open>`${finalBase}_${suffix}.pdf`\<close>\<close>

definition suffixed :: "string \<Rightarrow> nat \<Rightarrow> string" where
  "suffixed finalBase suffix = finalBase @ ''_'' @ numberToString suffix @ ''.pdf''"

text \<open>How many of the names still to be tried are entries already: the loop's measure.\<close>

definition taken :: "string list \<Rightarrow> string \<Rightarrow> nat \<Rightarrow> nat" where
  "taken names b suffix = card {k. suffix \<le> k \<and> suffixed b k \<in> set names}"

lemma digitChar_inj: "a < 10 \<Longrightarrow> b < 10 \<Longrightarrow> digitChar a = digitChar b \<Longrightarrow> a = b"
proof -
  assume a: "a < 10" and b: "b < 10" and e: "digitChar a = digitChar b"
  have d: "distinct ''0123456789''" by simp
  from a b e d show "a = b"
    unfolding digitChar_def by (simp add: nth_eq_iff_index_eq)
qed

lemma numberToString_nonempty: "numberToString n \<noteq> []"
  by (subst numberToString.simps) simp

lemma numberToString_inj: "numberToString a = numberToString b \<Longrightarrow> a = b"
proof (induction a arbitrary: b rule: numberToString.induct)
  case (1 n)
  show ?case
  proof (cases "n < 10")
    case True
    show ?thesis
    proof (cases "b < 10")
      case bt: True
      from "1.prems" True bt have "digitChar n = digitChar b"
        by (simp add: numberToString.simps [of n] numberToString.simps [of b])
      with True bt show ?thesis by (rule digitChar_inj)
    next
      case bf: False
      from "1.prems" True bf have "[digitChar n] = numberToString (b div 10) @ [digitChar (b mod 10)]"
        by (simp add: numberToString.simps [of n] numberToString.simps [of b])
      then have "numberToString (b div 10) = []" by simp
      with numberToString_nonempty show ?thesis by blast
    qed
  next
    case False
    show ?thesis
    proof (cases "b < 10")
      case bt: True
      from "1.prems" False bt have "numberToString (n div 10) @ [digitChar (n mod 10)] = [digitChar b]"
        by (simp add: numberToString.simps [of n] numberToString.simps [of b])
      then have "numberToString (n div 10) = []" by simp
      with numberToString_nonempty show ?thesis by blast
    next
      case bf: False
      from "1.prems" False bf
      have "numberToString (n div 10) @ [digitChar (n mod 10)]
            = numberToString (b div 10) @ [digitChar (b mod 10)]"
        by (simp add: numberToString.simps [of n] numberToString.simps [of b])
      then have e1: "numberToString (n div 10) = numberToString (b div 10)"
        and e2: "digitChar (n mod 10) = digitChar (b mod 10)" by simp_all
      from "1.IH" [OF False e1] have d: "n div 10 = b div 10" .
      have "n mod 10 = b mod 10" by (rule digitChar_inj [OF _ _ e2]) simp_all
      with d show ?thesis by (metis div_mult_mod_eq)
    qed
  qed
qed

lemma suffixed_inj: "suffixed b i = suffixed b j \<Longrightarrow> i = j"
  by (simp add: suffixed_def numberToString_inj)

lemma finite_taken: "finite {k. suffix \<le> k \<and> suffixed b k \<in> set names}"
proof -
  have "inj_on (suffixed b) {k. suffix \<le> k \<and> suffixed b k \<in> set names}"
    by (auto simp: inj_on_def dest: suffixed_inj)
  moreover have "suffixed b ` {k. suffix \<le> k \<and> suffixed b k \<in> set names} \<subseteq> set names"
    by auto
  ultimately show ?thesis
    by (metis finite_imageD finite_subset List.finite_set)
qed

lemma taken_step_in:
  assumes "suffixed b suffix \<in> set names"
  shows "taken names b (Suc suffix) < taken names b suffix"
proof -
  have "suffix \<in> {k. suffix \<le> k \<and> suffixed b k \<in> set names}"
    and "suffix \<notin> {k. Suc suffix \<le> k \<and> suffixed b k \<in> set names}"
    and "{k. Suc suffix \<le> k \<and> suffixed b k \<in> set names}
         \<subseteq> {k. suffix \<le> k \<and> suffixed b k \<in> set names}"
    using assms by auto
  then have "{k. Suc suffix \<le> k \<and> suffixed b k \<in> set names}
             \<subset> {k. suffix \<le> k \<and> suffixed b k \<in> set names}"
    by blast
  then show ?thesis unfolding taken_def
    by (rule psubset_card_mono [OF finite_taken])
qed

lemma taken_step_le: "taken names b (Suc suffix) \<le> taken names b suffix"
  unfolding taken_def by (rule card_mono [OF finite_taken]) auto

text \<open>
  The collision loop
  \<^verbatim>\<open>while (zip.getEntry(finalFileName)) { finalFileName = `${finalBase}_${suffix}.pdf`; suffix++; }\<close>
  over the names of the entries of the archive.
\<close>

function resolveCollision :: "string list \<Rightarrow> string \<Rightarrow> string \<Rightarrow> nat \<Rightarrow> string" where
  "resolveCollision names finalBase finalFileName suffix =
     (if finalFileName \<in> set names
      then resolveCollision names finalBase (suffixed finalBase suffix) (suffix + 1)
      else finalFileName)"
  by pat_completeness auto
termination
proof (relation "measure (\<lambda>(names, b, f, suffix).
         2 * taken names b suffix + (if f \<in> set names then 1 else 0))")
  show "wf (measure (\<lambda>(names, b, f, suffix).
         2 * taken names b suffix + (if f \<in> set names then 1 else 0)))"
    by simp
next
  fix names :: "string list" and finalBase finalFileName :: string and suffix :: nat
  assume "finalFileName \<in> set names"
  then show "((names, finalBase, suffixed finalBase suffix, suffix + 1),
              names, finalBase, finalFileName, suffix)
     \<in> measure (\<lambda>(names, b, f, suffix).
          2 * taken names b suffix + (if f \<in> set names then 1 else 0))"
    using taken_step_in [of finalBase suffix names] taken_step_le [of names finalBase suffix]
    by auto
qed

declare resolveCollision.simps [simp del]

text \<open>\<^verbatim>\<open>let finalBase = intestatario ? safePdfFileName(intestatario) : id;\<close>\<close>

definition finalBaseOf :: "string option \<Rightarrow> string \<Rightarrow> string" where
  "finalBaseOf intestatario gid =
     (case intestatario of
        None \<Rightarrow> gid
      | Some i \<Rightarrow> if i \<noteq> [] then safePdfFileName i else gid)"

text \<open>
  The body of the loop over the groups. The state is the archive and \<^verbatim>\<open>processedCount\<close>;
  \<open>Inl\<close> is an exception, raised with that state.
\<close>

type_synonym 'p archive = "(string \<times> 'p list) list"

definition mergePair ::
  "('b \<Rightarrow> error + string) \<Rightarrow> ('b \<Rightarrow> error + 'p list) \<Rightarrow> 'p archive \<times> nat
   \<Rightarrow> string \<times> 'b slots \<Rightarrow> (error \<times> 'p archive \<times> nat) + ('p archive \<times> nat)" where
  "mergePair parse load st grp =
     (case (main (snd grp), allegato (snd grp)) of
        (Some m, Some a) \<Rightarrow>
          (let archive = fst st;
               i1 = extractIntestatario parse (buffer a);
               intestatario = (if \<not> truthy i1 then extractIntestatario parse (buffer m) else i1);
               finalBase = finalBaseOf intestatario (fst grp);
               finalFileName = resolveCollision (map fst archive) finalBase (finalBase @ ''.pdf'') 2
           in case load (buffer m) of
                Inl e \<Rightarrow> Inl (e, st)
              | Inr mainPages \<Rightarrow>
                  (case load (buffer a) of
                     Inl e \<Rightarrow> Inl (e, st)
                   | Inr allegatoPages \<Rightarrow>
                       Inr (setEntry finalFileName (mainPages @ allegatoPages) archive, snd st + 1)))
      | _ \<Rightarrow> Inr st)"

fun mergePairs ::
  "('b \<Rightarrow> error + string) \<Rightarrow> ('b \<Rightarrow> error + 'p list) \<Rightarrow> 'p archive \<times> nat
   \<Rightarrow> (string \<times> 'b slots) list \<Rightarrow> (error \<times> 'p archive \<times> nat) + ('p archive \<times> nat)" where
  "mergePairs parse load st [] = Inr st"
| "mergePairs parse load st (g # gs) =
     (case mergePair parse load st g of
        Inl e \<Rightarrow> Inl e
      | Inr st' \<Rightarrow> mergePairs parse load st' gs)"

text \<open>The route \<^verbatim>\<open>app.post("/api/merge-pdfs")\<close>.\<close>

definition mergePdfsRoute ::
  "('b \<Rightarrow> error + string) \<Rightarrow> ('b \<Rightarrow> error + 'p list) \<Rightarrow> 'b upload list \<Rightarrow> 'p archive response" where
  "mergePdfsRoute parse load files =
     (if length files = 0 then Status400 ''Nessun file caricato.''
      else
        (case mergePairs parse load ([], 0) (groupSlots files) of
           Inl e \<Rightarrow> Status500 (''Errore interno durante l'' @ [CHR 0x27] @ ''unione dei file.'')
         | Inr (archive, processedCount) \<Rightarrow>
             if processedCount = 0
             then Status400 ''Nessuna coppia valida trovata (manca main o allegato).''
             else Status200 archive))"

section \<open>Sorting\<close>

text \<open>
  \<^verbatim>\<open>Array.prototype.sort(cmp)\<close> is stable. For a comparator that is a consistent ordering its
  result is the one stable sorted arrangement, which insertion from the right computes.
  \<^verbatim>\<open>String.prototype.localeCompare\<close> is the collation of the host and a parameter \<open>lc\<close> of
  the model.
\<close>

fun insertBy :: "('a \<Rightarrow> 'a \<Rightarrow> int) \<Rightarrow> 'a \<Rightarrow> 'a list \<Rightarrow> 'a list" where
  "insertBy cmp x [] = [x]"
| "insertBy cmp x (y # ys) = (if cmp x y \<le> 0 then x # y # ys else y # insertBy cmp x ys)"

definition sortBy :: "('a \<Rightarrow> 'a \<Rightarrow> int) \<Rightarrow> 'a list \<Rightarrow> 'a list" where
  "sortBy cmp xs = foldr (insertBy cmp) xs []"

section \<open>The serverless handler\<close>

text \<open>The grouping loop: \<^verbatim>\<open>groups[m[1]] ??= []; groups[m[1]].push(f);\<close>\<close>

definition pushToGroup ::
  "(string \<times> 'b upload list) list \<Rightarrow> 'b upload \<Rightarrow> (string \<times> 'b upload list) list" where
  "pushToGroup groups f =
     (case search groupIdAt (filename f) of
        None \<Rightarrow> groups
      | Some gid \<Rightarrow>
          setEntry gid ((case map_of groups gid of None \<Rightarrow> [] | Some fs \<Rightarrow> fs) @ [f]) groups)"

definition groupFilesById :: "'b upload list \<Rightarrow> (string \<times> 'b upload list) list" where
  "groupFilesById files = foldl pushToGroup [] files"

text \<open>The comparator of \<^verbatim>\<open>groupFiles.sort\<close>: the invoice first, the attachments after.\<close>

definition compareFiles :: "(string \<Rightarrow> string \<Rightarrow> int) \<Rightarrow> 'b upload \<Rightarrow> 'b upload \<Rightarrow> int" where
  "compareFiles lc a b =
     (let A = toLowerCase (filename a);
          B = toLowerCase (filename b)
      in if stringIncludes A ''allegato'' \<and> \<not> stringIncludes B ''allegato'' then 1
         else if \<not> stringIncludes A ''allegato'' \<and> stringIncludes B ''allegato'' then - 1
         else lc A B)"

text \<open>
  \<^verbatim>\<open>/Fattura\s*N[DO]?:\s*([0-9]{2}\/[0-9]{5})/i\<close>, group 1, where the class \<open>[DO]\<close> holds the
  degree sign U+00B0 and the masculine ordinal indicator U+00BA.
\<close>

definition fatturaAt :: "string \<Rightarrow> string option" where
  "fatturaAt s =
     litI ''Fattura'' (many isSpace (litI ''N''
       (optional (oneOf (\<lambda>c. c = CHR 0xB0 \<or> c = CHR 0xBA)) (lit '':'' (many isSpace
         (\<lambda>s1. oneOf isDigit (oneOf isDigit (lit ''/''
            (oneOf isDigit (oneOf isDigit (oneOf isDigit (oneOf isDigit (oneOf isDigit
              (\<lambda>s2. Some (consumed s1 s2))))))))) s1)))))) s"

text \<open>\<^verbatim>\<open>/Intestatario:\s*([^\n\r]+)/i\<close>, group 1.\<close>

definition notLineBreak :: "char \<Rightarrow> bool" where
  "notLineBreak c = (c \<noteq> newline \<and> c \<noteq> carriageReturn)"

definition intestatarioAt :: "string \<Rightarrow> string option" where
  "intestatarioAt s =
     litI ''Intestatario:'' (many isSpace
       (\<lambda>s1. many1 notLineBreak (\<lambda>s2. Some (consumed s1 s2)) s1)) s"

text \<open>
  \<^verbatim>\<open>/\bDr\s+N+\s+N+/\<close>, the whole match, where \<open>N\<close> is the class of A-Z, a-z, the range
  U+00C0..U+00FF, dot, apostrophe and hyphen. (Its typographic apostrophe U+2019 is no
  code unit below 256.)
\<close>

definition drChar :: "char \<Rightarrow> bool" where
  "drChar c = (inRange 65 90 c \<or> inRange 97 122 c \<or> inRange 192 255 c
     \<or> c = CHR ''.'' \<or> c = CHR 0x27 \<or> c = CHR ''-'')"

definition drNameAt :: "string \<Rightarrow> string option" where
  "drNameAt s =
     lit ''Dr'' (many1 isSpace (many1 drChar (many1 isSpace (many1 drChar
       (\<lambda>rest. Some (consumed s rest)))))) s"

text \<open>The two values read from the text of the first document of a group.\<close>

definition fatturaOf :: "string \<Rightarrow> string \<Rightarrow> string" where
  "fatturaOf text groupId =
     (case search fatturaAt text of
        Some g \<Rightarrow> g
      | None \<Rightarrow> replaceFirst ''-'' ''/'' groupId)"

definition intestatarioOf :: "string \<Rightarrow> string" where
  "intestatarioOf text =
     (case search intestatarioAt text of
        Some g \<Rightarrow> g
      | None \<Rightarrow>
          (case searchAtBoundary drNameAt None text of
             Some w \<Rightarrow> w
           | None \<Rightarrow> ''Documento''))"

text \<open>
  \<^verbatim>\<open>`${groupId} - ${safeName(fattura.replace("/", "-"))} - ${safeName(intestatario)}.pdf`\<close>
\<close>

definition handlerFilename :: "string \<Rightarrow> string \<Rightarrow> string \<Rightarrow> string" where
  "handlerFilename groupId fattura intestatario =
     groupId @ '' - '' @ safeName (replaceFirst ''/'' ''-'' fattura) @ '' - ''
       @ safeName intestatario @ ''.pdf''"

text \<open>The loop that copies the pages of every file of the group into the merged document.\<close>

fun appendPages ::
  "('b \<Rightarrow> error + 'p list) \<Rightarrow> 'p list \<Rightarrow> 'b upload list \<Rightarrow> error + 'p list" where
  "appendPages load mergedPdf [] = Inr mergedPdf"
| "appendPages load mergedPdf (f # fs) =
     (case load (buffer f) of
        Inl e \<Rightarrow> Inl e
      | Inr pages \<Rightarrow> appendPages load (mergedPdf @ pages) fs)"

text \<open>The body of the loop over the groups; the state is the archive and \<^verbatim>\<open>merged\<close>.\<close>

definition mergeGroup ::
  "(string \<Rightarrow> string \<Rightarrow> int) \<Rightarrow> ('b \<Rightarrow> error + string) \<Rightarrow> ('b \<Rightarrow> error + 'p list)
   \<Rightarrow> 'p archive \<times> nat \<Rightarrow> string \<times> 'b upload list
   \<Rightarrow> (error \<times> 'p archive \<times> nat) + ('p archive \<times> nat)" where
  "mergeGroup lc parse load st grp =
     (let groupId = fst grp; groupFiles = snd grp
      in if length groupFiles < 2 then Inr st
         else
          (case sortBy (compareFiles lc) groupFiles of
             [] \<Rightarrow> Inl (TypeError, st)
           | first # others \<Rightarrow>
               (case parse (buffer first) of
                  Inl e \<Rightarrow> Inl (e, st)
                | Inr text \<Rightarrow>
                    (let fattura = fatturaOf text groupId;
                         intestatario = intestatarioOf text
                     in case appendPages load [] (first # others) of
                          Inl e \<Rightarrow> Inl (e, st)
                        | Inr bytes \<Rightarrow>
                            Inr (setEntry (handlerFilename groupId fattura intestatario) bytes
                                   (fst st), snd st + 1)))))"

fun mergeGroups ::
  "(string \<Rightarrow> string \<Rightarrow> int) \<Rightarrow> ('b \<Rightarrow> error + string) \<Rightarrow> ('b \<Rightarrow> error + 'p list)
   \<Rightarrow> 'p archive \<times> nat \<Rightarrow> (string \<times> 'b upload list) list
   \<Rightarrow> (error \<times> 'p archive \<times> nat) + ('p archive \<times> nat)" where
  "mergeGroups lc parse load st [] = Inr st"
| "mergeGroups lc parse load st (g # gs) =
     (case mergeGroup lc parse load st g of
        Inl e \<Rightarrow> Inl e
      | Inr st' \<Rightarrow> mergeGroups lc parse load st' gs)"

text \<open>\<^verbatim>\<open>handler\<close>, from the request method and the uploaded files on.\<close>

definition handler ::
  "(string \<Rightarrow> string \<Rightarrow> int) \<Rightarrow> ('b \<Rightarrow> error + string) \<Rightarrow> ('b \<Rightarrow> error + 'p list)
   \<Rightarrow> string \<Rightarrow> 'b upload list \<Rightarrow> 'p archive response" where
  "handler lc parse load method files =
     (if method \<noteq> ''POST'' then Status405 ''Method not allowed''
      else if length files < 2 then Status400 ''Servono almeno due PDF''
      else
        (case mergeGroups lc parse load ([], 0) (groupFilesById files) of
           Inl e \<Rightarrow> Status500 ''Errore durante il merge PDF''
         | Inr (archive, merged) \<Rightarrow>
             if merged = 0 then Status400 ''Nessuna coppia valida trovata''
             else Status200 archive))"

section \<open>The in-browser variant\<close>

text \<open>\<^verbatim>\<open>Number(digits)\<close> for a string of decimal digits (exact below \<open>2^53\<close>).\<close>

definition digitValue :: "char \<Rightarrow> nat" where
  "digitValue c = code c - 48"

definition stringToNumber :: "string \<Rightarrow> nat" where
  "stringToNumber ds = foldl (\<lambda>n c. 10 * n + digitValue c) 0 ds"

text \<open>\<^verbatim>\<open>Number((an.match(/allegato\s*(\d+)/i) || [])[1] || 0)\<close>\<close>

definition allegatoNumberAt :: "string \<Rightarrow> string option" where
  "allegatoNumberAt s =
     litI ''allegato'' (many isSpace
       (\<lambda>s1. many1 isDigit (\<lambda>s2. Some (consumed s1 s2)) s1)) s"

definition allegatoNumber :: "string \<Rightarrow> nat" where
  "allegatoNumber an =
     (case search allegatoNumberAt an of
        None \<Rightarrow> 0
      | Some g \<Rightarrow> if g \<noteq> [] then stringToNumber g else 0)"

text \<open>The comparator of \<^verbatim>\<open>orderGroupFiles\<close>.\<close>

definition orderCompare :: "(string \<Rightarrow> string \<Rightarrow> int) \<Rightarrow> 'b upload \<Rightarrow> 'b upload \<Rightarrow> int" where
  "orderCompare lc a b =
     (let an = toLowerCase (filename a);
          bn = toLowerCase (filename b);
          aIsAll = stringIncludes an ''allegato'';
          bIsAll = stringIncludes bn ''allegato''
      in if aIsAll \<noteq> bIsAll then (if aIsAll then 1 else - 1)
         else
          (let aNum = allegatoNumber an;
               bNum = allegatoNumber bn
           in if aNum \<noteq> bNum then int aNum - int bNum
              else lc an bn))"

definition orderGroupFiles :: "(string \<Rightarrow> string \<Rightarrow> int) \<Rightarrow> 'b upload list \<Rightarrow> 'b upload list" where
  "orderGroupFiles lc groupFiles = sortBy (orderCompare lc) groupFiles"

text \<open>What \<^verbatim>\<open>extractDocInfo\<close> returns.\<close>

record docInfo =
  intestatario :: "string option"
  fatturaNo :: "string option"

text \<open>\<^verbatim>\<open>parts.join(" - ")\<close>\<close>

fun joinParts :: "string list \<Rightarrow> string" where
  "joinParts [] = []"
| "joinParts [p] = p"
| "joinParts (p # q # ps) = p @ '' - '' @ joinParts (q # ps)"

text \<open>
  The name of an output in \<^verbatim>\<open>processFiles\<close>: the parts that are neither \<^verbatim>\<open>null\<close> nor
  empty (\<^verbatim>\<open>filter(Boolean)\<close>), joined.
\<close>

definition processFilesFilename :: "string \<Rightarrow> docInfo \<Rightarrow> string" where
  "processFilesFilename groupId info =
     (let fatturaDash = (if truthy (fatturaNo info)
                         then map_option (replaceFirst ''/'' ''-'') (fatturaNo info) else None);
          parts = List.map_filter (\<lambda>p. if truthy p then p else None)
            [Some groupId,
             (if truthy fatturaDash then fatturaDash else None),
             (if truthy (intestatario info) then map_option safeFilenamePart (intestatario info)
              else None)]
      in joinParts parts @ ''.pdf'')"

section \<open>The addressee cascade in the words of the specification\<close>

text \<open>
  The contract of the metadata extractor: an ordered list of heuristics, each giving a
  captured span or nothing; every span passes through the candidate sanitizer; the result
  is the first accepted candidate, and a rejection moves on to the next heuristic.
\<close>

fun firstAccepted :: "(string \<Rightarrow> string option) list \<Rightarrow> string \<Rightarrow> string option" where
  "firstAccepted [] text = None"
| "firstAccepted (h # hs) text =
     (case h text of
        None \<Rightarrow> firstAccepted hs text
      | Some span \<Rightarrow>
          (case cleanupCandidateName span of
             None \<Rightarrow> firstAccepted hs text
           | Some cand \<Rightarrow> Some cand))"

text \<open>
  The three heuristics in their priority: the name on the line of \<^verbatim>\<open>Intestatario:\<close>, the
  name on the line after it, a title and a name in the first 2500 characters.
\<close>

definition addresseeHeuristics :: "(string \<Rightarrow> string option) list" where
  "addresseeHeuristics =
     [\<lambda>text. search sameLineAt text,
      \<lambda>text. search nextLineAt text,
      \<lambda>text. map_option (\<lambda>g. fst g @ '' '' @ snd g)
                (searchAtBoundary titledNameAt None (take 2500 text))]"

section \<open>Documents and a collation for the examples\<close>

text \<open>
  A document for the examples: its pages (numbered) and its text, or bytes that no PDF
  library reads. The collation of the examples compares code units.
\<close>

datatype document = Pdf "nat list" string | Corrupt

definition pagesOf :: "document \<Rightarrow> error + nat list" where
  "pagesOf d = (case d of Pdf ps t \<Rightarrow> Inr ps | Corrupt \<Rightarrow> Inl ParseError)"

definition textOf :: "document \<Rightarrow> error + string" where
  "textOf d = (case d of Pdf ps t \<Rightarrow> Inr t | Corrupt \<Rightarrow> Inl ParseError)"

fun codeUnitCompare :: "string \<Rightarrow> string \<Rightarrow> int" where
  "codeUnitCompare [] [] = 0"
| "codeUnitCompare [] (y # ys) = - 1"
| "codeUnitCompare (x # xs) [] = 1"
| "codeUnitCompare (x # xs) (y # ys) =
     (if code x < code y then - 1 else if code y < code x then 1 else codeUnitCompare xs ys)"

section \<open>Vocabulary of the properties\<close>

text \<open>The last element of a list with a property, if there is one.\<close>

definition lastWhere :: "('a \<Rightarrow> bool) \<Rightarrow> 'a list \<Rightarrow> 'a option" where
  "lastWhere P xs = (if filter P xs = [] then None else Some (last (filter P xs)))"

text \<open>
  An upload of the group \<open>gid\<close> in the role of the attachment (\<open>att\<close>) or of the main
  document, as the single-backend server reads its name.
\<close>

definition roleOf :: "string \<Rightarrow> bool \<Rightarrow> 'b upload \<Rightarrow> bool" where
  "roleOf gid att f =
     (extractGroupIdFromFilename (filename f) = Some gid \<and> isAllegato (filename f) = att)"

text \<open>The test of the serverless handler for an attachment, and a list with every attachment
  after every other file.\<close>

definition isAttachment :: "'b upload \<Rightarrow> bool" where
  "isAttachment f = stringIncludes (toLowerCase (filename f)) ''allegato''"

fun attachmentsLast :: "'b upload list \<Rightarrow> bool" where
  "attachmentsLast [] = True"
| "attachmentsLast (f # fs) = ((isAttachment f \<longrightarrow> list_all isAttachment fs) \<and> attachmentsLast fs)"

text \<open>The characters of a group identifier: digits and the hyphen.\<close>

definition idChar :: "char \<Rightarrow> bool" where
  "idChar c = (isDigit c \<or> c = CHR ''-'')"

text \<open>A group that the single-backend server merges: both slots are filled.\<close>

definition completePair :: "string \<times> 'b slots \<Rightarrow> bool" where
  "completePair g = (main (snd g) \<noteq> None \<and> allegato (snd g) \<noteq> None)"

text \<open>A group that the serverless handler merges: two files or more.\<close>

definition completeGroup :: "string \<times> 'b upload list \<Rightarrow> bool" where
  "completeGroup g = (2 \<le> length (snd g))"

text \<open>An upload whose name holds the identifier \<open>gid\<close>.\<close>

definition inGroup :: "string \<Rightarrow> 'b upload \<Rightarrow> bool" where
  "inGroup gid f = (search groupIdAt (filename f) = Some gid)"

text \<open>A name that the serverless handler gave to the output of a group of \<open>done\<close>.\<close>

definition namedFor :: "string set \<Rightarrow> string \<Rightarrow> bool" where
  "namedFor done name = (\<exists>g x y. name = handlerFilename g x y \<and> list_all idChar g \<and> g \<in> done)"

text \<open>The pages of an upload that loads (no pages otherwise).\<close>

definition loadedPages :: "('b \<Rightarrow> error + 'p list) \<Rightarrow> 'b upload \<Rightarrow> 'p list" where
  "loadedPages load f = (case load (buffer f) of Inr ps \<Rightarrow> ps | Inl e \<Rightarrow> [])"

text \<open>The pages of a list of documents, one document after the other.\<close>

definition mergedPages :: "('b \<Rightarrow> error + 'p list) \<Rightarrow> 'b upload list \<Rightarrow> 'p list" where
  "mergedPages load docs = concat (map (loadedPages load) docs)"

text \<open>The files in the slots of a group of the single-backend server, the main document first.\<close>

definition slotFiles :: "'b slots \<Rightarrow> 'b upload list" where
  "slotFiles g =
     (case main g of None \<Rightarrow> [] | Some m \<Rightarrow> [m]) @ (case allegato g of None \<Rightarrow> [] | Some a \<Rightarrow> [a])"

section \<open>Uploads for the examples\<close>

text \<open>A complete group whose invoice gives a bare reference number as the addressee.\<close>

definition numericAddressee :: "document upload list" where
  "numericAddressee =
     [\<lparr>filename = ''25-02050.pdf'',
       buffer = Pdf [1] (''Intestatario: 25/02050'' @ [newline] @ ''Dr Mario Rossi'')\<rparr>,
      \<lparr>filename = ''25-02050_Allegato1.pdf'', buffer = Pdf [2] ''''\<rparr>]"

text \<open>Two main documents and two attachments of one group, uploaded in this order.\<close>

definition twoOfEach :: "document upload list" where
  "twoOfEach =
     [\<lparr>filename = ''25-02050.pdf'', buffer = Pdf [1, 2, 3] ''Intestatario: Mario Rossi''\<rparr>,
      \<lparr>filename = ''25-02050_Allegato1.pdf'', buffer = Pdf [4] ''''\<rparr>,
      \<lparr>filename = ''25-02050 bis.pdf'', buffer = Pdf [5, 6] ''Intestatario: Mario Rossi''\<rparr>,
      \<lparr>filename = ''25-02050_Allegato2.pdf'', buffer = Pdf [7, 8] ''''\<rparr>]"

text \<open>A main document without pages and an attachment of four pages.\<close>

definition zeroPageMain :: "document upload list" where
  "zeroPageMain =
     [\<lparr>filename = ''25-02050_Allegato1.pdf'', buffer = Pdf [1, 2, 3, 4] ''''\<rparr>,
      \<lparr>filename = ''25-02050.pdf'', buffer = Pdf [] ''Intestatario: Mario Rossi''\<rparr>]"

text \<open>A main document and two attachments of one group.\<close>

definition twoAttachments :: "document upload list" where
  "twoAttachments =
     [\<lparr>filename = ''25-02050.pdf'', buffer = Pdf [1, 2, 3] ''Intestatario: Mario Rossi''\<rparr>,
      \<lparr>filename = ''25-02050_Allegato1.pdf'', buffer = Pdf [4, 5] ''''\<rparr>,
      \<lparr>filename = ''25-02050_Allegato2.pdf'', buffer = Pdf [6, 7] ''''\<rparr>]"

text \<open>Three complete groups with the same addressee.\<close>

definition threeRossi :: "document upload list" where
  "threeRossi =
     [\<lparr>filename = ''25-02050.pdf'', buffer = Pdf [1] ''Intestatario: Mario Rossi''\<rparr>,
      \<lparr>filename = ''25-02050_Allegato1.pdf'', buffer = Pdf [2] ''''\<rparr>,
      \<lparr>filename = ''25-02051.pdf'', buffer = Pdf [3] ''Intestatario: Mario Rossi''\<rparr>,
      \<lparr>filename = ''25-02051_Allegato1.pdf'', buffer = Pdf [4] ''''\<rparr>,
      \<lparr>filename = ''25-02052.pdf'', buffer = Pdf [5] ''Intestatario: Mario Rossi''\<rparr>,
      \<lparr>filename = ''25-02052_Allegato1.pdf'', buffer = Pdf [6] ''''\<rparr>]"

text \<open>Two complete groups; the attachment of the second is unreadable.\<close>

definition oneCorrupt :: "document upload list" where
  "oneCorrupt =
     [\<lparr>filename = ''25-02050.pdf'', buffer = Pdf [1, 2, 3] ''Intestatario: Mario Rossi''\<rparr>,
      \<lparr>filename = ''25-02050_Allegato1.pdf'', buffer = Pdf [4, 5] ''''\<rparr>,
      \<lparr>filename = ''25-02051.pdf'', buffer = Pdf [6] ''Intestatario: Anna Verdi''\<rparr>,
      \<lparr>filename = ''25-02051_Allegato1.pdf'', buffer = Corrupt\<rparr>]"


text \<open>An invoice with its second and its tenth attachment.\<close>

definition invoice :: "document upload" where
  "invoice = \<lparr>filename = ''25-02050.pdf'', buffer = Pdf [0] ''Intestatario: Mario Rossi''\<rparr>"

definition attachment2 :: "document upload" where
  "attachment2 = \<lparr>filename = ''25-02050_Allegato2.pdf'', buffer = Pdf [2] ''''\<rparr>"

definition attachment10 :: "document upload" where
  "attachment10 = \<lparr>filename = ''25-02050_Allegato10.pdf'', buffer = Pdf [10] ''''\<rparr>"

text \<open>A complete group whose first document names neither an addressee nor a number.\<close>

definition noMetadata :: "document upload list" where
  "noMetadata =
     [\<lparr>filename = ''25-02050.pdf'', buffer = Pdf [1] ''Gentile cliente''\<rparr>,
      \<lparr>filename = ''25-02050_Allegato1.pdf'', buffer = Pdf [2] ''''\<rparr>]"

text \<open>A complete group whose invoice gives a question mark as the addressee.\<close>

definition unnamedAddressee :: "document upload list" where
  "unnamedAddressee =
     [\<lparr>filename = ''25-02051.pdf'', buffer = Pdf [7] ''Intestatario: ?''\<rparr>,
      \<lparr>filename = ''25-02051_Allegato1.pdf'', buffer = Pdf [8] ''''\<rparr>]"

section \<open>Properties of the candidate sanitizer\<close>

lemma referenceChars_are_reference: "list_all isReferenceChar ''0123456789 /.-''"
  by code_simp

text \<open>
  C6. Whatever the input, a string that \<^const>\<open>cleanupCandidateName\<close> accepts has at least
  four characters, and it does not consist solely of digits, spaces, slashes, dots and
  hyphens; not even when every white-space character of \<^verbatim>\<open>\s\<close> counts as a space.
\<close>

theorem cleanupCandidateName_accepted:
  assumes "cleanupCandidateName raw = Some s"
  shows "4 \<le> length s \<and> \<not> list_all isReferenceChar s
         \<and> \<not> set s \<subseteq> set ''0123456789 /.-''"
proof -
  let ?s = "foldl cutAtStopWord (trim (collapseWhitespace (stripIllegal raw))) stopWords"
  from assms have eq: "s = ?s" and len: "\<not> length ?s < 4" and ref: "\<not> looksLikeReference ?s"
    by (auto simp: cleanupCandidateName_def Let_def split: if_splits)
  from len eq have l4: "4 \<le> length s" by simp
  then have ne: "s \<noteq> []" by auto
  with ref eq have nall: "\<not> list_all isReferenceChar s"
    by (simp add: looksLikeReference_def)
  have sub: "\<And>c. c \<in> set ''0123456789 /.-'' \<Longrightarrow> isReferenceChar c"
    using referenceChars_are_reference unfolding list_all_iff by blast
  from nall sub have "\<not> set s \<subseteq> set ''0123456789 /.-''"
    unfolding list_all_iff by blast
  with l4 nall show ?thesis by blast
qed

theorem cleanupCandidateName_accepted_witness:
  "cleanupCandidateName ''Mario Rossi Fattura N 25/02049'' = Some ''Mario Rossi''
   \<and> 4 \<le> length ''Mario Rossi'' \<and> \<not> list_all isReferenceChar ''Mario Rossi''
   \<and> \<not> set ''Mario Rossi'' \<subseteq> set ''0123456789 /.-''"
proof -
  have h: "cleanupCandidateName ''Mario Rossi Fattura N 25/02049'' = Some ''Mario Rossi''"
    by code_simp
  from cleanupCandidateName_accepted [OF h] h show ?thesis by blast
qed

section \<open>Properties of the addressee cascade\<close>

lemma cleanupCandidateName_length: "cleanupCandidateName raw = Some s \<Longrightarrow> 4 \<le> length s"
  by (auto simp: cleanupCandidateName_def Let_def split: if_splits)

lemma cleanupCandidateName_truthy:
  "truthy (cleanupCandidateName raw) = (cleanupCandidateName raw \<noteq> None)"
  using cleanupCandidateName_length [of raw]
  by (cases "cleanupCandidateName raw") (auto simp: truthy_def)

lemma cleanupCandidateName_empty: "cleanupCandidateName [] = None"
  by code_simp

lemma truthy_None: "truthy None = False"
  by (simp add: truthy_def)

lemma guarded_candidate:
  "(case m of None \<Rightarrow> None | Some g \<Rightarrow> if g \<noteq> [] then cleanupCandidateName g else None)
   = (case m of None \<Rightarrow> None | Some g \<Rightarrow> cleanupCandidateName g)"
  by (cases m) (auto simp: cleanupCandidateName_empty)

lemma truthy_candidate:
  "truthy (case m of None \<Rightarrow> None | Some g \<Rightarrow> cleanupCandidateName g)
   = ((case m of None \<Rightarrow> None | Some g \<Rightarrow> cleanupCandidateName g) \<noteq> None)"
  by (cases m) (simp_all add: truthy_None cleanupCandidateName_truthy)

text \<open>
  For every normalized text, \<^verbatim>\<open>extractIntestatario\<close> of the single-backend server returns the
  candidate of the first of its three heuristics (same line, next line, title and name in
  the first 2500 characters) whose span the candidate sanitizer accepts: an accepted
  candidate ends the cascade, a rejected one lets it go on to the next heuristic, and it
  returns nothing when no heuristic gives an accepted candidate.
\<close>

lemma extractIntestatario_cascade:
  "extractIntestatarioFromText text = firstAccepted addresseeHeuristics text"
proof -
  let ?c1 = "case search sameLineAt text of None \<Rightarrow> None | Some g \<Rightarrow> cleanupCandidateName g"
  let ?c2 = "case search nextLineAt text of None \<Rightarrow> None | Some g \<Rightarrow> cleanupCandidateName g"
  let ?m3 = "searchAtBoundary titledNameAt None (take 2500 text)"
  let ?c3 = "case ?m3 of None \<Rightarrow> None
             | Some g \<Rightarrow> cleanupCandidateName (fst g @ '' '' @ snd g)"
  have t3: "truthy ?c3 = (?c3 \<noteq> None)"
  proof (cases ?m3)
    case None
    then show ?thesis by (simp add: truthy_None)
  next
    case (Some p)
    then show ?thesis
      using cleanupCandidateName_truthy [of "fst p @ '' '' @ snd p"] by simp
  qed
  have lhs: "extractIntestatarioFromText text =
    (if ?c1 \<noteq> None then ?c1 else if ?c2 \<noteq> None then ?c2 else ?c3)"
    unfolding extractIntestatarioFromText_def Let_def guarded_candidate truthy_candidate t3
    by simp
  have rhs: "firstAccepted addresseeHeuristics text =
    (if ?c1 \<noteq> None then ?c1 else if ?c2 \<noteq> None then ?c2 else ?c3)"
    unfolding addresseeHeuristics_def
    by (auto split: option.splits)
  from lhs rhs show ?thesis by simp
qed

text \<open>
  A text whose first heuristic captures a bare reference number: the sanitizer rejects
  it, and the second heuristic gives the addressee; the title further down is not used.
\<close>

lemma extractIntestatario_cascade_example:
  "search sameLineAt (''Intestatario: 25/02050'' @ [newline] @ ''Intestatario:'' @ [newline]
      @ ''Maria Bianchi'' @ [newline] @ ''Dr. Mario Rossi'') = Some ''25/02050''
   \<and> cleanupCandidateName ''25/02050'' = None
   \<and> firstAccepted addresseeHeuristics
        (''Intestatario: 25/02050'' @ [newline] @ ''Intestatario:'' @ [newline]
          @ ''Maria Bianchi'' @ [newline] @ ''Dr. Mario Rossi'') = Some ''Maria Bianchi''"
proof -
  let ?text = "''Intestatario: 25/02050'' @ [newline] @ ''Intestatario:'' @ [newline]
      @ ''Maria Bianchi'' @ [newline] @ ''Dr. Mario Rossi''"
  have a: "search sameLineAt ?text = Some ''25/02050''" by code_simp
  have b: "cleanupCandidateName ''25/02050'' = None" by code_simp
  have c: "extractIntestatarioFromText ?text = Some ''Maria Bianchi''" by code_simp
  from a b c extractIntestatario_cascade [of ?text] show ?thesis by simp
qed

text \<open>
  C4, at an input where the serverless handler departs from it. The handler passes no
  capture through the candidate sanitizer: its addressee is the capture of the first of
  its two patterns that matches. For a text whose line \<^verbatim>\<open>Intestatario:\<close> holds a bare
  reference number, the sanitizer rejects the capture and the single-backend server goes
  on to the titled name; the handler keeps the number as the addressee.
\<close>

theorem handler_keeps_rejected_candidate:
  "cleanupCandidateName ''25/02050'' = None
   \<and> intestatarioOf (''Intestatario: 25/02050'' @ [newline] @ ''Dr Mario Rossi'') = ''25/02050''
   \<and> extractIntestatarioFromText (''Intestatario: 25/02050'' @ [newline] @ ''Dr Mario Rossi'')
       = Some ''Dr Mario Rossi''
   \<and> handler codeUnitCompare textOf pagesOf ''POST'' numericAddressee
       = Status200 [(''25-02050 - 25-02050 - 2502050.pdf'', [1, 2])]
   \<and> mergePdfsRoute textOf pagesOf numericAddressee
       = Status200 [(''Dr Mario Rossi.pdf'', [1, 2])]"
  by code_simp

section \<open>Groups of the single-backend server\<close>

lemma lastWhere_Nil: "lastWhere P [] = None"
  by (simp add: lastWhere_def)

lemma lastWhere_snoc: "lastWhere P (xs @ [x]) = (if P x then Some x else lastWhere P xs)"
  by (simp add: lastWhere_def)

lemma lastWhere_None: "lastWhere P xs = None \<longleftrightarrow> (\<forall>x \<in> set xs. \<not> P x)"
  by (simp add: lastWhere_def filter_empty_conv)

lemma map_of_setEntry: "map_of (setEntry k v al) = (map_of al)(k \<mapsto> v)"
  by (induction al) (auto simp: fun_eq_iff)

lemma keys_setEntry:
  "map fst (setEntry k v al) = (if k \<in> fst ` set al then map fst al else map fst al @ [k])"
  by (induction al) auto

lemma distinct_setEntry: "distinct (map fst al) \<Longrightarrow> distinct (map fst (setEntry k v al))"
  by (simp add: keys_setEntry)

lemma groupSlots_snoc: "groupSlots (fs @ [f]) = assignSlot (groupSlots fs) f"
  by (simp add: groupSlots_def)

lemma groupSlots_inv:
  "distinct (map fst (groupSlots files)) \<and>
   (\<forall>gid. map_of (groupSlots files) gid =
      (if \<exists>f \<in> set files. extractGroupIdFromFilename (filename f) = Some gid
       then Some \<lparr>main = lastWhere (roleOf gid False) files,
                  allegato = lastWhere (roleOf gid True) files\<rparr>
       else None))"
proof (induction files rule: rev_induct)
  case Nil
  show ?case by (simp add: groupSlots_def lastWhere_Nil)
next
  case (snoc f fs)
  let ?G = "groupSlots fs"
  from snoc have d: "distinct (map fst ?G)" by blast
  from snoc have m: "\<And>gid. map_of ?G gid =
      (if \<exists>f \<in> set fs. extractGroupIdFromFilename (filename f) = Some gid
       then Some \<lparr>main = lastWhere (roleOf gid False) fs,
                  allegato = lastWhere (roleOf gid True) fs\<rparr>
       else None)" by blast
  show ?case
  proof (cases "extractGroupIdFromFilename (filename f)")
    case None
    then have g: "groupSlots (fs @ [f]) = ?G"
      by (simp add: groupSlots_snoc assignSlot_def)
    from None have r: "\<And>gid att. \<not> roleOf gid att f" by (simp add: roleOf_def)
    show ?thesis
      unfolding g using d m None by (auto simp: lastWhere_snoc r)
  next
    case (Some k)
    have none_k: "\<not> (\<exists>f \<in> set fs. extractGroupIdFromFilename (filename f) = Some k)
      \<Longrightarrow> lastWhere (roleOf k att) fs = None" for att
      by (auto simp: lastWhere_None roleOf_def)
    let ?g0 = "case map_of ?G k of None \<Rightarrow> \<lparr>main = None, allegato = None\<rparr> | Some g \<Rightarrow> g"
    have g0: "?g0 = \<lparr>main = lastWhere (roleOf k False) fs, allegato = lastWhere (roleOf k True) fs\<rparr>"
      using m [of k] none_k by (auto split: option.splits)
    let ?new = "if isAllegato (filename f) then ?g0\<lparr>allegato := Some f\<rparr> else ?g0\<lparr>main := Some f\<rparr>"
    have g: "groupSlots (fs @ [f]) = setEntry k ?new ?G"
      using Some by (simp add: groupSlots_snoc assignSlot_def Let_def)
    have rk: "roleOf k att f = (isAllegato (filename f) = att)" for att
      using Some by (simp add: roleOf_def)
    have ro: "gid \<noteq> k \<Longrightarrow> \<not> roleOf gid att f" for gid att
      using Some by (simp add: roleOf_def)
    have new: "?new = \<lparr>main = lastWhere (roleOf k False) (fs @ [f]),
                        allegato = lastWhere (roleOf k True) (fs @ [f])\<rparr>"
      unfolding g0 by (simp add: lastWhere_snoc rk)
    have "map_of (groupSlots (fs @ [f])) gid =
      (if \<exists>f' \<in> set (fs @ [f]). extractGroupIdFromFilename (filename f') = Some gid
       then Some \<lparr>main = lastWhere (roleOf gid False) (fs @ [f]),
                  allegato = lastWhere (roleOf gid True) (fs @ [f])\<rparr>
       else None)" for gid
    proof (cases "gid = k")
      case True
      then show ?thesis unfolding g map_of_setEntry new using Some by simp
    next
      case False
      then show ?thesis unfolding g map_of_setEntry using Some m [of gid]
        by (simp add: lastWhere_snoc ro)
    qed
    moreover have "distinct (map fst (groupSlots (fs @ [f])))"
      unfolding g using d by (rule distinct_setEntry)
    ultimately show ?thesis by blast
  qed
qed

lemma lastWhere_Some: "lastWhere P xs = Some x \<Longrightarrow> x \<in> set xs \<and> P x"
proof -
  assume a: "lastWhere P xs = Some x"
  then have ne: "filter P xs \<noteq> []" and l: "last (filter P xs) = x"
    by (auto simp: lastWhere_def split: if_splits)
  from ne have "last (filter P xs) \<in> set (filter P xs)" by (rule last_in_set)
  with l show ?thesis by simp
qed

lemma mergePair_complete:
  assumes "main g = Some m" and "allegato g = Some a"
    and "load (buffer m) = Inr pm" and "load (buffer a) = Inr pa"
  shows "\<exists>name. mergePair parse load (archive, n) (gid, g)
           = Inr (setEntry name (pm @ pa) archive, n + 1)"
  using assms by (auto simp: mergePair_def Let_def)

lemma mergePair_incomplete:
  assumes "main g = None \<or> allegato g = None"
  shows "mergePair parse load st (gid, g) = Inr st"
  using assms by (auto simp: mergePair_def split: option.splits)

text \<open>
  C9. In the single-backend server a group has one slot for the main document and one for
  the attachment: the slot holds the last uploaded file of the group with that role (a
  later file replaces an earlier one), the keys of the groups are distinct, and a group
  with both slots filled is merged from exactly these two different uploads, the pages of
  the main document before those of the attachment; a group with an empty slot is skipped.
\<close>

theorem groupSlots_one_per_role:
  assumes "(gid, g) \<in> set (groupSlots files)"
  shows "main g = lastWhere (roleOf gid False) files
       \<and> allegato g = lastWhere (roleOf gid True) files
       \<and> (\<forall>m a pm pa. main g = Some m \<and> allegato g = Some a
             \<and> load (buffer m) = Inr pm \<and> load (buffer a) = Inr pa
           \<longrightarrow> m \<in> set files \<and> a \<in> set files \<and> m \<noteq> a
             \<and> (\<exists>name. mergePair parse load (archive, n) (gid, g)
                    = Inr (setEntry name (pm @ pa) archive, n + 1)))
       \<and> (main g = None \<or> allegato g = None
           \<longrightarrow> mergePair parse load (archive, n) (gid, g) = Inr (archive, n))
       \<and> distinct (map fst (groupSlots files))"
proof -
  from groupSlots_inv [of files] have d: "distinct (map fst (groupSlots files))"
    and m: "map_of (groupSlots files) gid =
      (if \<exists>f \<in> set files. extractGroupIdFromFilename (filename f) = Some gid
       then Some \<lparr>main = lastWhere (roleOf gid False) files,
                  allegato = lastWhere (roleOf gid True) files\<rparr>
       else None)" by blast+
  from d assms have "map_of (groupSlots files) gid = Some g" by simp
  with m have g: "g = \<lparr>main = lastWhere (roleOf gid False) files,
                  allegato = lastWhere (roleOf gid True) files\<rparr>"
    by (simp split: if_splits)
  then have r1: "main g = lastWhere (roleOf gid False) files"
    and r2: "allegato g = lastWhere (roleOf gid True) files" by simp_all
  have r3: "m \<in> set files \<and> a \<in> set files \<and> m \<noteq> a
             \<and> (\<exists>name. mergePair parse load (archive, n) (gid, g)
                    = Inr (setEntry name (pm @ pa) archive, n + 1))"
    if h: "main g = Some m \<and> allegato g = Some a
             \<and> load (buffer m) = Inr pm \<and> load (buffer a) = Inr pa" for m a pm pa
  proof -
    from h r1 have "lastWhere (roleOf gid False) files = Some m" by simp
    then have m1: "m \<in> set files" and m2: "roleOf gid False m" by (auto dest: lastWhere_Some)
    from h r2 have "lastWhere (roleOf gid True) files = Some a" by simp
    then have a1: "a \<in> set files" and a2: "roleOf gid True a" by (auto dest: lastWhere_Some)
    from m2 a2 have "m \<noteq> a" by (auto simp: roleOf_def)
    with m1 a1 mergePair_complete [of g m a load pm pa parse archive n gid] h
    show ?thesis by blast
  qed
  have r4: "main g = None \<or> allegato g = None
           \<Longrightarrow> mergePair parse load (archive, n) (gid, g) = Inr (archive, n)"
    by (rule mergePair_incomplete)
  from r1 r2 r3 r4 d show ?thesis by blast
qed

theorem groupSlots_one_per_role_witness:
  "groupSlots twoOfEach = [(''25-02050'', \<lparr>main = Some (twoOfEach ! 2), allegato = Some (twoOfEach ! 3)\<rparr>)]
   \<and> lastWhere (roleOf ''25-02050'' False) twoOfEach = Some (twoOfEach ! 2)
   \<and> lastWhere (roleOf ''25-02050'' True) twoOfEach = Some (twoOfEach ! 3)
   \<and> mergePdfsRoute textOf pagesOf twoOfEach = Status200 [(''Mario Rossi.pdf'', [5, 6, 7, 8])]"
proof -
  let ?g = "\<lparr>main = Some (twoOfEach ! 2), allegato = Some (twoOfEach ! 3)\<rparr>"
  have e: "groupSlots twoOfEach = [(''25-02050'', ?g)]" by code_simp
  then have mem: "(''25-02050'', ?g) \<in> set (groupSlots twoOfEach)" by simp
  have r: "mergePdfsRoute textOf pagesOf twoOfEach = Status200 [(''Mario Rossi.pdf'', [5, 6, 7, 8])]"
    by code_simp
  from groupSlots_one_per_role [OF mem, where load = pagesOf and parse = textOf
      and archive = "[]" and n = 0]
  have "main ?g = lastWhere (roleOf ''25-02050'' False) twoOfEach"
    and "allegato ?g = lastWhere (roleOf ''25-02050'' True) twoOfEach" by blast+
  then have "lastWhere (roleOf ''25-02050'' False) twoOfEach = Some (twoOfEach ! 2)"
    and "lastWhere (roleOf ''25-02050'' True) twoOfEach = Some (twoOfEach ! 3)" by simp_all
  with e r show ?thesis by blast
qed

section \<open>Sorting and the merge loop of a group\<close>

lemma set_insertBy: "set (insertBy cmp x ys) = insert x (set ys)"
  by (induction ys) auto

lemma length_insertBy: "length (insertBy cmp x ys) = Suc (length ys)"
  by (induction ys) auto

lemma sum_list_insertBy: "sum_list (map h (insertBy cmp x ys)) = h x + sum_list (map (h :: 'a \<Rightarrow> nat) ys)"
  by (induction ys) auto

lemma set_sortBy: "set (sortBy cmp xs) = set xs"
  by (induction xs) (auto simp: sortBy_def set_insertBy)

lemma length_sortBy: "length (sortBy cmp xs) = length xs"
  by (induction xs) (auto simp: sortBy_def length_insertBy)

lemma sum_list_sortBy: "sum_list (map h (sortBy cmp xs)) = sum_list (map (h :: 'a \<Rightarrow> nat) xs)"
  by (induction xs) (auto simp: sortBy_def sum_list_insertBy)

lemma compareFiles_attachment:
  "isAttachment a \<Longrightarrow> \<not> isAttachment b \<Longrightarrow> compareFiles lc a b = 1"
  "\<not> isAttachment a \<Longrightarrow> isAttachment b \<Longrightarrow> compareFiles lc a b = - 1"
  by (simp_all add: compareFiles_def isAttachment_def Let_def)

lemma attachmentsLast_insertBy:
  "attachmentsLast ys \<Longrightarrow> attachmentsLast (insertBy (compareFiles lc) x ys)"
proof (induction ys)
  case Nil
  show ?case by simp
next
  case (Cons y ys)
  show ?case
  proof (cases "compareFiles lc x y \<le> 0")
    case True
    have "isAttachment x \<Longrightarrow> isAttachment y"
      using True compareFiles_attachment(1) [of x y lc] by fastforce
    with True Cons.prems show ?thesis by auto
  next
    case False
    have "isAttachment y \<Longrightarrow> isAttachment x"
      using False compareFiles_attachment(2) [of x y lc] by fastforce
    with False Cons show ?thesis
      by (auto simp: list_all_iff set_insertBy)
  qed
qed

lemma attachmentsLast_sortBy: "attachmentsLast (sortBy (compareFiles lc) xs)"
  by (induction xs) (auto simp: sortBy_def attachmentsLast_insertBy)

lemma appendPages_all:
  "\<forall>f \<in> set fs. load (buffer f) = Inr (pg f)
   \<Longrightarrow> appendPages load acc fs = Inr (acc @ concat (map pg fs))"
  by (induction fs arbitrary: acc) auto

lemma length_concat_pages: "length (concat (map pg fs)) = sum_list (map (length \<circ> pg) fs)"
  by (induction fs) auto

lemma mergeGroup_sorted:
  assumes loads: "\<forall>f \<in> set files. load (buffer f) = Inr (pg f)"
    and two: "2 \<le> length files"
    and s: "sortBy (compareFiles lc) files = f0 # rest"
    and t: "parse (buffer f0) = Inr t"
  shows "mergeGroup lc parse load (archive, n) (gid, files)
           = Inr (setEntry (handlerFilename gid (fatturaOf t gid) (intestatarioOf t))
                    (concat (map pg (sortBy (compareFiles lc) files))) archive, n + 1)"
proof -
  let ?s = "sortBy (compareFiles lc) files"
  from loads have "\<forall>f \<in> set ?s. load (buffer f) = Inr (pg f)" by (simp add: set_sortBy)
  then have ap: "appendPages load [] ?s = Inr (concat (map pg ?s))"
    using appendPages_all [of ?s load pg "[]"] by simp
  from two have nl: "\<not> length files < 2" by simp
  have "mergeGroup lc parse load (archive, n) (gid, files)
      = (case appendPages load [] (f0 # rest) of
           Inl e \<Rightarrow> Inl (e, (archive, n))
         | Inr bytes \<Rightarrow>
             Inr (setEntry (handlerFilename gid (fatturaOf t gid) (intestatarioOf t)) bytes
                    archive, n + 1))"
    unfolding mergeGroup_def Let_def fst_conv snd_conv using nl t by (simp add: s)
  also have "\<dots> = Inr (setEntry (handlerFilename gid (fatturaOf t gid) (intestatarioOf t))
                    (concat (map pg ?s)) archive, n + 1)"
    using ap unfolding s by simp
  finally show ?thesis .
qed

lemma mergeGroup_complete:
  assumes loads: "\<forall>f \<in> set files. load (buffer f) = Inr (pg f)"
    and texts: "\<forall>f \<in> set files. \<exists>t. parse (buffer f) = Inr t"
    and two: "2 \<le> length files"
  shows "\<exists>name. mergeGroup lc parse load (archive, n) (gid, files)
           = Inr (setEntry name (concat (map pg (sortBy (compareFiles lc) files))) archive, n + 1)"
proof -
  let ?s = "sortBy (compareFiles lc) files"
  from two have "length ?s \<noteq> 0" by (auto simp: length_sortBy)
  then obtain f0 rest where s: "?s = f0 # rest" by (cases ?s) auto
  then have "f0 \<in> set ?s" by simp
  then have "f0 \<in> set files" by (simp add: set_sortBy)
  with texts obtain t where t: "parse (buffer f0) = Inr t" by blast
  from mergeGroup_sorted [where pg = pg and load = load and parse = parse, OF loads two s t] show ?thesis by blast
qed

section \<open>Names of the outputs\<close>

lemma oneOf_Some:
  "oneOf C k s = Some r \<Longrightarrow> \<exists>c cs. s = c # cs \<and> C c \<and> k cs = Some r"
  by (cases s) (auto split: if_splits)

lemma many_Some:
  "many C k s = Some r \<Longrightarrow> \<exists>n \<le> length s. (\<forall>c \<in> set (take n s). C c) \<and> k (drop n s) = Some r"
proof (induction s)
  case Nil
  then show ?case by simp
next
  case (Cons c cs)
  show ?case
  proof (cases "C c \<and> many C k cs \<noteq> None")
    case True
    with Cons.prems have "many C k cs = Some r" by auto
    from Cons.IH [OF this] obtain n where "n \<le> length cs" "\<forall>c \<in> set (take n cs). C c"
      "k (drop n cs) = Some r" by blast
    with True have "Suc n \<le> length (c # cs) \<and> (\<forall>x \<in> set (take (Suc n) (c # cs)). C x)
        \<and> k (drop (Suc n) (c # cs)) = Some r" by simp
    then show ?thesis by blast
  next
    case False
    with Cons.prems have "k (c # cs) = Some r" by (auto split: if_splits option.splits)
    then have "0 \<le> length (c # cs) \<and> (\<forall>x \<in> set (take 0 (c # cs)). C x)
        \<and> k (drop 0 (c # cs)) = Some r" by simp
    then show ?thesis by blast
  qed
qed

lemma search_Some: "search m s = Some r \<Longrightarrow> \<exists>i \<le> length s. m (drop i s) = Some r"
proof (induction s)
  case Nil
  then show ?case by simp
next
  case (Cons c cs)
  show ?case
  proof (cases "m (c # cs)")
    case None
    with Cons.prems have "search m cs = Some r" by simp
    from Cons.IH [OF this] obtain i where "i \<le> length cs" "m (drop i cs) = Some r" by blast
    then have "Suc i \<le> length (c # cs) \<and> m (drop (Suc i) (c # cs)) = Some r" by simp
    then show ?thesis by blast
  next
    case (Some a)
    with Cons.prems have "0 \<le> length (c # cs) \<and> m (drop 0 (c # cs)) = Some r" by simp
    then show ?thesis by blast
  qed
qed

lemma groupIdAt_shape:
  assumes "groupIdAt s = Some g"
  shows "list_all idChar g"
proof -
  let ?k = "\<lambda>rest. Some (consumed s rest)"
  from assms obtain c1 s1 where 1: "s = c1 # s1" "isDigit c1"
    "oneOf isDigit (lit ''-'' (oneOf isDigit (oneOf isDigit (oneOf isDigit (oneOf isDigit
         (many isDigit ?k)))))) s1 = Some g"
    unfolding groupIdAt_def by (blast dest: oneOf_Some)
  then obtain c2 s2 where 2: "s1 = c2 # s2" "isDigit c2"
    "lit ''-'' (oneOf isDigit (oneOf isDigit (oneOf isDigit (oneOf isDigit
         (many isDigit ?k))))) s2 = Some g"
    by (blast dest: oneOf_Some)
  then have "oneOf (\<lambda>c. c = CHR ''-'') (oneOf isDigit (oneOf isDigit (oneOf isDigit (oneOf isDigit
         (many isDigit ?k))))) s2 = Some g" by simp
  then obtain c3 s3 where 3: "s2 = c3 # s3" "c3 = CHR ''-''"
    "oneOf isDigit (oneOf isDigit (oneOf isDigit (oneOf isDigit (many isDigit ?k)))) s3 = Some g"
    by (blast dest: oneOf_Some)
  then obtain c4 s4 where 4: "s3 = c4 # s4" "isDigit c4"
    "oneOf isDigit (oneOf isDigit (oneOf isDigit (many isDigit ?k))) s4 = Some g"
    by (blast dest: oneOf_Some)
  then obtain c5 s5 where 5: "s4 = c5 # s5" "isDigit c5"
    "oneOf isDigit (oneOf isDigit (many isDigit ?k)) s5 = Some g"
    by (blast dest: oneOf_Some)
  then obtain c6 s6 where 6: "s5 = c6 # s6" "isDigit c6"
    "oneOf isDigit (many isDigit ?k) s6 = Some g"
    by (blast dest: oneOf_Some)
  then obtain c7 s7 where 7: "s6 = c7 # s7" "isDigit c7" "many isDigit ?k s7 = Some g"
    by (blast dest: oneOf_Some)
  from many_Some [OF 7(3)] obtain n where n: "n \<le> length s7"
    "\<forall>c \<in> set (take n s7). isDigit c" "Some (consumed s (drop n s7)) = Some g" by blast
  have s: "s = [c1, c2, c3, c4, c5, c6, c7] @ s7"
    using 1 2 3 4 5 6 7 by simp
  from n(1) have "consumed s (drop n s7) = [c1, c2, c3, c4, c5, c6, c7] @ take n s7"
    unfolding consumed_def s by (simp add: eval_nat_numeral)
  with n(3) have g: "g = [c1, c2, c3, c4, c5, c6, c7] @ take n s7" by simp
  show ?thesis
    unfolding g using 1(2) 2(2) 3(2) 4(2) 5(2) 6(2) 7(2) n(2)
    by (simp add: idChar_def list_all_iff)
qed

lemma search_groupIdAt_shape:
  assumes "search groupIdAt s = Some g"
  shows "list_all idChar g"
proof -
  from search_Some [OF assms] obtain i where "groupIdAt (drop i s) = Some g" by blast
  then show ?thesis by (rule groupIdAt_shape)
qed

lemma space_not_idChar: "\<not> idChar (CHR '' '')"
  by code_simp

lemma idChar_not_space: "idChar c \<Longrightarrow> c \<noteq> CHR '' ''"
  using space_not_idChar by blast

lemma separator_splits:
  "g @ sep # r = g' @ sep # r' \<Longrightarrow> sep \<notin> set g \<Longrightarrow> sep \<notin> set g' \<Longrightarrow> g = g'"
proof (induction g arbitrary: g')
  case Nil
  then show ?case by (cases g') auto
next
  case (Cons c cs)
  then show ?case by (cases g') auto
qed

lemma handlerFilename_inj:
  assumes e: "handlerFilename g x y = handlerFilename g' x' y'"
    and g: "list_all idChar g" and g': "list_all idChar g'"
  shows "g = g'"
proof -
  from g have 1: "CHR '' '' \<notin> set g"
    using idChar_not_space unfolding list_all_iff by blast
  from g' have 2: "CHR '' '' \<notin> set g'"
    using idChar_not_space unfolding list_all_iff by blast
  from e have "g @ CHR '' '' # (''- '' @ safeName (replaceFirst ''/'' ''-'' x) @ '' - ''
        @ safeName y @ ''.pdf'')
      = g' @ CHR '' '' # (''- '' @ safeName (replaceFirst ''/'' ''-'' x') @ '' - ''
        @ safeName y' @ ''.pdf'')"
    unfolding handlerFilename_def by simp
  from separator_splits [OF this 1 2] show ?thesis .
qed

lemma length_setEntry:
  "length (setEntry k v al) = (if k \<in> fst ` set al then length al else Suc (length al))"
  by (induction al) auto

lemma resolveCollision_fresh: "resolveCollision names b f k \<notin> set names"
proof (induction names b f k rule: resolveCollision.induct)
  case (1 names finalBase finalFileName suffix)
  then show ?case
    by (subst resolveCollision.simps) simp
qed

lemma resolveCollision_free:
  "f \<notin> set names \<Longrightarrow> resolveCollision names b f k = f"
  by (subst resolveCollision.simps) simp

lemma resolveCollision_least:
  "f \<in> set names \<Longrightarrow>
     \<exists>k \<ge> s. resolveCollision names b f s = suffixed b k \<and> suffixed b k \<notin> set names
        \<and> (\<forall>j. s \<le> j \<and> j < k \<longrightarrow> suffixed b j \<in> set names)"
proof (induction names b f s rule: resolveCollision.induct)
  case (1 names finalBase finalFileName suffix)
  have step: "resolveCollision names finalBase finalFileName suffix
      = resolveCollision names finalBase (suffixed finalBase suffix) (suffix + 1)"
    using "1.prems" by (subst resolveCollision.simps) simp
  show ?case
  proof (cases "suffixed finalBase suffix \<in> set names")
    case False
    then have "resolveCollision names finalBase finalFileName suffix = suffixed finalBase suffix"
      unfolding step by (rule resolveCollision_free)
    with False have "suffix \<ge> suffix
        \<and> resolveCollision names finalBase finalFileName suffix = suffixed finalBase suffix
        \<and> suffixed finalBase suffix \<notin> set names
        \<and> (\<forall>j. suffix \<le> j \<and> j < suffix \<longrightarrow> suffixed finalBase j \<in> set names)" by auto
    then show ?thesis by blast
  next
    case True
    from "1.IH" [OF "1.prems" True] obtain k where k: "k \<ge> suffix + 1"
      "resolveCollision names finalBase (suffixed finalBase suffix) (suffix + 1) = suffixed finalBase k"
      "suffixed finalBase k \<notin> set names"
      "\<forall>j. suffix + 1 \<le> j \<and> j < k \<longrightarrow> suffixed finalBase j \<in> set names" by blast
    have "\<forall>j. suffix \<le> j \<and> j < k \<longrightarrow> suffixed finalBase j \<in> set names"
    proof (intro allI impI)
      fix j assume j: "suffix \<le> j \<and> j < k"
      show "suffixed finalBase j \<in> set names"
      proof (cases "j = suffix")
        case True with \<open>suffixed finalBase suffix \<in> set names\<close> show ?thesis by simp
      next
        case False with j k(4) show ?thesis by simp
      qed
    qed
    with k step have "k \<ge> suffix
        \<and> resolveCollision names finalBase finalFileName suffix = suffixed finalBase k
        \<and> suffixed finalBase k \<notin> set names
        \<and> (\<forall>j. suffix \<le> j \<and> j < k \<longrightarrow> suffixed finalBase j \<in> set names)" by simp
    then show ?thesis by blast
  qed
qed

lemma mergePair_result:
  assumes "mergePair parse load (archive, n) g = Inr (archive', n')"
  shows "if completePair g
         then (\<exists>name content. name \<notin> set (map fst archive)
                 \<and> archive' = setEntry name content archive \<and> n' = n + 1)
         else archive' = archive \<and> n' = n"
proof (cases "completePair g")
  case False
  then have "main (snd g) = None \<or> allegato (snd g) = None" by (simp add: completePair_def)
  then have "mergePair parse load (archive, n) g = Inr (archive, n)"
    by (auto simp: mergePair_def split: option.splits)
  with assms False show ?thesis by simp
next
  case True
  then obtain m a where ma: "main (snd g) = Some m" "allegato (snd g) = Some a"
    by (auto simp: completePair_def)
  let ?i1 = "extractIntestatario parse (buffer a)"
  let ?i = "if \<not> truthy ?i1 then extractIntestatario parse (buffer m) else ?i1"
  let ?b = "finalBaseOf ?i (fst g)"
  let ?name = "resolveCollision (map fst archive) ?b (?b @ ''.pdf'') 2"
  from assms ma obtain pm pa where "archive' = setEntry ?name (pm @ pa) archive" "n' = n + 1"
    unfolding mergePair_def Let_def by (auto split: sum.splits)
  moreover have "?name \<notin> set (map fst archive)" by (rule resolveCollision_fresh)
  ultimately have "\<exists>name content. name \<notin> set (map fst archive)
                 \<and> archive' = setEntry name content archive \<and> n' = n + 1" by blast
  with True show ?thesis by simp
qed

lemma mergePairs_count:
  assumes "mergePairs parse load (archive, n) gs = Inr (archive', n')"
    and "distinct (map fst archive)" and "length archive = n"
  shows "distinct (map fst archive') \<and> length archive' = n'
       \<and> n' = n + length (filter completePair gs)"
  using assms
proof (induction gs arbitrary: archive n)
  case Nil
  then show ?case by simp
next
  case (Cons g gs)
  from Cons.prems(1) obtain a1 n1 where s1: "mergePair parse load (archive, n) g = Inr (a1, n1)"
    and r: "mergePairs parse load (a1, n1) gs = Inr (archive', n')"
    by (auto split: sum.splits)
  from mergePair_result [OF s1] Cons.prems(2,3)
  have inv: "distinct (map fst a1) \<and> length a1 = n1
      \<and> n1 = n + (if completePair g then 1 else 0)"
    by (auto split: if_splits simp: distinct_setEntry length_setEntry)
  from Cons.IH [OF r] inv show ?case by auto
qed

lemma groupFilesById_snoc: "groupFilesById (fs @ [f]) = pushToGroup (groupFilesById fs) f"
  by (simp add: groupFilesById_def)

lemma groupFilesById_inv:
  "distinct (map fst (groupFilesById files)) \<and>
   (\<forall>gid. map_of (groupFilesById files) gid =
      (if filter (inGroup gid) files = [] then None else Some (filter (inGroup gid) files)))"
proof (induction files rule: rev_induct)
  case Nil
  show ?case by (simp add: groupFilesById_def)
next
  case (snoc f fs)
  let ?G = "groupFilesById fs"
  from snoc have d: "distinct (map fst ?G)" by blast
  from snoc have m: "\<And>gid. map_of ?G gid =
      (if filter (inGroup gid) fs = [] then None else Some (filter (inGroup gid) fs))" by blast
  show ?case
  proof (cases "search groupIdAt (filename f)")
    case None
    then have g: "groupFilesById (fs @ [f]) = ?G"
      by (simp add: groupFilesById_snoc pushToGroup_def)
    from None have "\<And>gid. \<not> inGroup gid f" by (simp add: inGroup_def)
    with d m show ?thesis unfolding g by simp
  next
    case (Some k)
    have old: "(case map_of ?G k of None \<Rightarrow> [] | Some fs \<Rightarrow> fs) = filter (inGroup k) fs"
      using m [of k] by simp
    have g: "groupFilesById (fs @ [f]) = setEntry k (filter (inGroup k) fs @ [f]) ?G"
      using Some old by (simp add: groupFilesById_snoc pushToGroup_def)
    have ik: "inGroup gid f = (gid = k)" for gid
      using Some by (auto simp: inGroup_def)
    have "map_of (groupFilesById (fs @ [f])) gid =
      (if filter (inGroup gid) (fs @ [f]) = [] then None
       else Some (filter (inGroup gid) (fs @ [f])))" for gid
      unfolding g map_of_setEntry using m [of gid] by (simp add: ik)
    moreover have "distinct (map fst (groupFilesById (fs @ [f])))"
      unfolding g using d by (rule distinct_setEntry)
    ultimately show ?thesis by blast
  qed
qed

lemma groupFilesById_member:
  assumes "(gid, fs) \<in> set (groupFilesById files)"
  shows "fs = filter (inGroup gid) files \<and> fs \<noteq> []"
proof -
  from groupFilesById_inv [of files] have d: "distinct (map fst (groupFilesById files))"
    and m: "map_of (groupFilesById files) gid =
      (if filter (inGroup gid) files = [] then None else Some (filter (inGroup gid) files))"
    by blast+
  from d assms have "map_of (groupFilesById files) gid = Some fs" by simp
  with m show ?thesis by (simp split: if_splits)
qed

lemma groupFilesById_keys_shaped:
  assumes "(gid, fs) \<in> set (groupFilesById files)"
  shows "list_all idChar gid"
proof -
  from groupFilesById_member [OF assms] have "filter (inGroup gid) files \<noteq> []" by blast
  then have "\<exists>f \<in> set files. inGroup gid f" unfolding filter_empty_conv by blast
  then obtain f where "f \<in> set files" and "inGroup gid f" ..
  then have "search groupIdAt (filename f) = Some gid" by (simp add: inGroup_def)
  then show ?thesis by (rule search_groupIdAt_shape)
qed

lemma mergeGroup_result:
  assumes "mergeGroup lc parse load (archive, n) g = Inr (archive', n')"
  shows "if completeGroup g
         then (\<exists>x y content. archive' = setEntry (handlerFilename (fst g) x y) content archive
                 \<and> n' = n + 1)
         else archive' = archive \<and> n' = n"
proof (cases "completeGroup g")
  case False
  then have "length (snd g) < 2" by (simp add: completeGroup_def)
  then have "mergeGroup lc parse load (archive, n) g = Inr (archive, n)"
    by (simp add: mergeGroup_def)
  with assms False show ?thesis by simp
next
  case True
  then have nl: "\<not> length (snd g) < 2" by (simp add: completeGroup_def)
  from assms nl obtain t bytes where
    "archive' = setEntry (handlerFilename (fst g) (fatturaOf t (fst g)) (intestatarioOf t)) bytes archive"
    "n' = n + 1"
    unfolding mergeGroup_def Let_def by (auto split: list.splits sum.splits)
  then have "\<exists>x y content. archive' = setEntry (handlerFilename (fst g) x y) content archive
                 \<and> n' = n + 1" by blast
  with True show ?thesis by simp
qed

lemma namedFor_mono: "namedFor done name \<Longrightarrow> namedFor (insert g done) name"
  unfolding namedFor_def by blast

lemma mergeGroups_count:
  assumes "mergeGroups lc parse load (archive, n) gs = Inr (archive', n')"
    and "distinct (map fst gs)" and "\<forall>g \<in> set gs. list_all idChar (fst g)"
    and "distinct (map fst archive)" and "length archive = n"
    and "\<forall>name \<in> fst ` set archive. namedFor done name" and "done \<inter> fst ` set gs = {}"
  shows "distinct (map fst archive') \<and> length archive' = n'
       \<and> n' = n + length (filter completeGroup gs)"
  using assms
proof (induction gs arbitrary: archive n "done")
  case Nil
  then show ?case by simp
next
  case (Cons g gs)
  from Cons.prems(1) obtain a1 n1 where s1: "mergeGroup lc parse load (archive, n) g = Inr (a1, n1)"
    and r: "mergeGroups lc parse load (a1, n1) gs = Inr (archive', n')"
    by (auto split: sum.splits)
  have dg: "distinct (map fst gs)" and sg: "\<forall>g \<in> set gs. list_all idChar (fst g)"
    and fresh: "fst g \<notin> fst ` set gs" and shaped: "list_all idChar (fst g)"
    and notdone: "fst g \<notin> done"
    using Cons.prems(2,3,7) by auto
  have disj: "(insert (fst g) done) \<inter> fst ` set gs = {}"
    using Cons.prems(7) fresh by auto
  have inv: "distinct (map fst a1) \<and> length a1 = n1
      \<and> n1 = n + (if completeGroup g then 1 else 0)
      \<and> (\<forall>name \<in> fst ` set a1. namedFor (insert (fst g) done) name)"
  proof (cases "completeGroup g")
    case False
    with mergeGroup_result [OF s1] have "a1 = archive" "n1 = n" by simp_all
    with False Cons.prems(4,5,6) show ?thesis by (simp add: namedFor_mono)
  next
    case True
    with mergeGroup_result [OF s1] obtain x y content where
      a1: "a1 = setEntry (handlerFilename (fst g) x y) content archive" and n1: "n1 = n + 1"
      by auto
    have new: "handlerFilename (fst g) x y \<notin> fst ` set archive"
    proof
      assume "handlerFilename (fst g) x y \<in> fst ` set archive"
      with Cons.prems(6) have "namedFor done (handlerFilename (fst g) x y)" by blast
      then obtain g' x' y' where e: "handlerFilename (fst g) x y = handlerFilename g' x' y'"
        and s': "list_all idChar g'" and d': "g' \<in> done"
        unfolding namedFor_def by blast
      from handlerFilename_inj [OF e shaped s'] d' notdone show False by simp
    qed
    have n0: "namedFor (insert (fst g) done) (handlerFilename (fst g) x y)"
      unfolding namedFor_def using shaped by blast
    have keys: "map fst a1 = map fst archive @ [handlerFilename (fst g) x y]"
      unfolding a1 keys_setEntry using new by simp
    have nm: "\<forall>name \<in> fst ` set a1. namedFor (insert (fst g) done) name"
    proof
      fix name assume "name \<in> fst ` set a1"
      then have "name \<in> set (map fst a1)" by simp
      then have "name = handlerFilename (fst g) x y \<or> name \<in> fst ` set archive"
        unfolding keys by auto
      then show "namedFor (insert (fst g) done) name"
      proof
        assume "name = handlerFilename (fst g) x y"
        with n0 show ?thesis by simp
      next
        assume "name \<in> fst ` set archive"
        with Cons.prems(6) have "namedFor done name" by blast
        then show ?thesis by (rule namedFor_mono)
      qed
    qed
    have d1: "distinct (map fst a1)"
      unfolding a1 using Cons.prems(4) by (rule distinct_setEntry)
    have l1: "length a1 = n1"
      using keys Cons.prems(5) n1 by (metis length_map length_append_singleton Suc_eq_plus1)
    from d1 l1 n1 True nm show ?thesis by simp
  qed
  from inv have i1: "distinct (map fst a1)" and i2: "length a1 = n1"
    and i3: "\<forall>name \<in> fst ` set a1. namedFor (insert (fst g) done) name" by blast+
  from Cons.IH [OF r dg sg i1 i2 i3 disj] inv show ?case by auto
qed

lemma route_names:
  assumes "mergePdfsRoute parse load files = Status200 archive"
  shows "distinct (map fst archive)
       \<and> length archive = length (filter completePair (groupSlots files))"
proof -
  from assms obtain n where "mergePairs parse load ([], 0) (groupSlots files) = Inr (archive, n)"
    unfolding mergePdfsRoute_def by (auto split: if_splits sum.splits)
  from mergePairs_count [OF this] show ?thesis by simp
qed

lemma handler_names:
  assumes "handler lc parse load method files = Status200 archive"
  shows "distinct (map fst archive)
       \<and> length archive = length (filter completeGroup (groupFilesById files))"
proof -
  from assms obtain n where
    m: "mergeGroups lc parse load ([], 0) (groupFilesById files) = Inr (archive, n)"
    unfolding handler_def by (auto split: if_splits sum.splits)
  have d: "distinct (map fst (groupFilesById files))"
    using groupFilesById_inv [of files] by blast
  have s: "\<forall>g \<in> set (groupFilesById files). list_all idChar (fst g)"
    using groupFilesById_keys_shaped [of _ _ files] by auto
  from mergeGroups_count [OF m d s, of "{}"] show ?thesis by simp
qed

text \<open>
  C3. The outputs of one request have pairwise distinct names, one archive entry for every
  merged group and none overwritten. In the single-backend server the collision loop
  returns a name that no entry has: the base name with \<^verbatim>\<open>.pdf\<close> when that is free, and
  otherwise the base name with the suffix \<^verbatim>\<open>_k\<close> for the least \<open>k\<close> from 2 on that is
  free. In the serverless handler the names start with the identifiers of the groups, and
  two groups never get the same name.
\<close>

theorem output_names_distinct:
  "(mergePdfsRoute parse load files = Status200 archive
      \<longrightarrow> distinct (map fst archive)
        \<and> length archive = length (filter completePair (groupSlots files)))
   \<and> (handler lc parse' load' method files' = Status200 archive'
      \<longrightarrow> distinct (map fst archive')
        \<and> length archive' = length (filter completeGroup (groupFilesById files')))
   \<and> resolveCollision names b (b @ ''.pdf'') 2 \<notin> set names
   \<and> (b @ ''.pdf'' \<notin> set names \<longrightarrow> resolveCollision names b (b @ ''.pdf'') 2 = b @ ''.pdf'')
   \<and> (b @ ''.pdf'' \<in> set names
      \<longrightarrow> (\<exists>k \<ge> 2. resolveCollision names b (b @ ''.pdf'') 2 = suffixed b k
             \<and> (\<forall>j. 2 \<le> j \<and> j < k \<longrightarrow> suffixed b j \<in> set names)))"
proof -
  have 1: "mergePdfsRoute parse load files = Status200 archive
      \<longrightarrow> distinct (map fst archive)
        \<and> length archive = length (filter completePair (groupSlots files))"
    using route_names by blast
  have 2: "handler lc parse' load' method files' = Status200 archive'
      \<longrightarrow> distinct (map fst archive')
        \<and> length archive' = length (filter completeGroup (groupFilesById files'))"
    using handler_names by blast
  have 3: "resolveCollision names b (b @ ''.pdf'') 2 \<notin> set names"
    by (rule resolveCollision_fresh)
  have 4: "b @ ''.pdf'' \<notin> set names \<longrightarrow> resolveCollision names b (b @ ''.pdf'') 2 = b @ ''.pdf''"
    using resolveCollision_free by blast
  have 5: "b @ ''.pdf'' \<in> set names
      \<longrightarrow> (\<exists>k \<ge> 2. resolveCollision names b (b @ ''.pdf'') 2 = suffixed b k
             \<and> (\<forall>j. 2 \<le> j \<and> j < k \<longrightarrow> suffixed b j \<in> set names))"
    using resolveCollision_least [of "b @ ''.pdf''" names 2 b] by blast
  from 1 2 3 4 5 show ?thesis by blast
qed

theorem output_names_distinct_witness:
  "mergePdfsRoute textOf pagesOf threeRossi
     = Status200 [(''Mario Rossi.pdf'', [1, 2]), (''Mario Rossi_2.pdf'', [3, 4]),
                  (''Mario Rossi_3.pdf'', [5, 6])]
   \<and> handler codeUnitCompare textOf pagesOf ''POST'' threeRossi
     = Status200 [(''25-02050 - 25-02050 - Mario Rossi.pdf'', [1, 2]),
                  (''25-02051 - 25-02051 - Mario Rossi.pdf'', [3, 4]),
                  (''25-02052 - 25-02052 - Mario Rossi.pdf'', [5, 6])]
   \<and> length (filter completePair (groupSlots threeRossi)) = 3
   \<and> length (filter completeGroup (groupFilesById threeRossi)) = 3
   \<and> resolveCollision [''Mario Rossi.pdf'', ''Mario Rossi_2.pdf''] ''Mario Rossi''
        (''Mario Rossi'' @ ''.pdf'') 2 = suffixed ''Mario Rossi'' 3"
proof -
  let ?a = "[(''Mario Rossi.pdf'', [1, 2]), (''Mario Rossi_2.pdf'', [3, 4]),
             (''Mario Rossi_3.pdf'', [5::nat, 6])]"
  let ?h = "[(''25-02050 - 25-02050 - Mario Rossi.pdf'', [1, 2]),
             (''25-02051 - 25-02051 - Mario Rossi.pdf'', [3, 4]),
             (''25-02052 - 25-02052 - Mario Rossi.pdf'', [5::nat, 6])]"
  let ?names = "[''Mario Rossi.pdf'', ''Mario Rossi_2.pdf'']"
  have r: "mergePdfsRoute textOf pagesOf threeRossi = Status200 ?a" by code_simp
  have h: "handler codeUnitCompare textOf pagesOf ''POST'' threeRossi = Status200 ?h" by code_simp
  have c: "resolveCollision ?names ''Mario Rossi'' (''Mario Rossi'' @ ''.pdf'') 2
      = suffixed ''Mario Rossi'' 3" by code_simp
  from output_names_distinct [of textOf pagesOf threeRossi ?a codeUnitCompare textOf pagesOf
      "''POST''" threeRossi ?h ?names "''Mario Rossi''"] r h
  have "length ?a = length (filter completePair (groupSlots threeRossi))"
    and "length ?h = length (filter completeGroup (groupFilesById threeRossi))" by blast+
  with r h c show ?thesis by simp
qed

section \<open>Exceptions of the PDF libraries\<close>

lemma appendPages_fails:
  "f \<in> set fs \<Longrightarrow> load (buffer f) = Inl e \<Longrightarrow> \<exists>e'. appendPages load acc fs = Inl e'"
proof (induction fs arbitrary: acc)
  case Nil
  then show ?case by simp
next
  case (Cons x xs)
  show ?case
  proof (cases "load (buffer x)")
    case (Inl a)
    then show ?thesis by simp
  next
    case (Inr ps)
    with Cons.prems have "f \<in> set xs" by auto
    from Cons.IH [OF this, of "acc @ ps"] Cons.prems(2) Inr show ?thesis by simp
  qed
qed

lemma mergeGroup_fails:
  assumes two: "2 \<le> length fs" and f: "f \<in> set fs" and l: "load (buffer f) = Inl e"
  shows "\<exists>x. mergeGroup lc parse load st (gid, fs) = Inl x"
proof -
  let ?s = "sortBy (compareFiles lc) fs"
  from two have "length ?s \<noteq> 0" by (auto simp: length_sortBy)
  then obtain f0 rest where s: "?s = f0 # rest" by (cases ?s) auto
  from f have "f \<in> set (f0 # rest)" unfolding s [symmetric] by (simp add: set_sortBy)
  from appendPages_fails [where load = load, OF this l, of "[]"] obtain e' where
    ap: "appendPages load [] (f0 # rest) = Inl e'" by blast
  from two have nl: "\<not> length fs < 2" by simp
  show ?thesis
  proof (cases "parse (buffer f0)")
    case (Inl a)
    then show ?thesis
      unfolding mergeGroup_def Let_def fst_conv snd_conv using nl by (simp add: s)
  next
    case (Inr t)
    then show ?thesis
      unfolding mergeGroup_def Let_def fst_conv snd_conv using nl ap by (simp add: s)
  qed
qed

lemma mergeGroups_fails:
  assumes "g \<in> set gs" and "\<And>st. \<exists>x. mergeGroup lc parse load st g = Inl x"
  shows "\<exists>x. mergeGroups lc parse load st gs = Inl x"
  using assms(1)
proof (induction gs arbitrary: st)
  case Nil
  then show ?case by simp
next
  case (Cons h hs)
  show ?case
  proof (cases "mergeGroup lc parse load st h")
    case (Inl a)
    then have "mergeGroups lc parse load st (h # hs) = Inl a" by simp
    then show ?thesis by blast
  next
    case (Inr st')
    with assms(2) [of st] have "h \<noteq> g" by auto
    with Cons.prems have "g \<in> set hs" by simp
    from Cons.IH [OF this, of st'] Inr show ?thesis by simp
  qed
qed

lemma mergePair_fails:
  assumes "main g = Some m" and "allegato g = Some a"
    and "load (buffer m) = Inl e \<or> load (buffer a) = Inl e"
  shows "\<exists>x. mergePair parse load st (gid, g) = Inl x"
  using assms by (cases "load (buffer m)") (auto simp: mergePair_def Let_def)

lemma mergePairs_fails:
  assumes "g \<in> set gs" and "\<And>st. \<exists>x. mergePair parse load st g = Inl x"
  shows "\<exists>x. mergePairs parse load st gs = Inl x"
  using assms(1)
proof (induction gs arbitrary: st)
  case Nil
  then show ?case by simp
next
  case (Cons h hs)
  show ?case
  proof (cases "mergePair parse load st h")
    case (Inl a)
    then have "mergePairs parse load st (h # hs) = Inl a" by simp
    then show ?thesis by blast
  next
    case (Inr st')
    with assms(2) [of st] have "h \<noteq> g" by auto
    with Cons.prems have "g \<in> set hs" by simp
    from Cons.IH [OF this, of st'] Inr show ?thesis by simp
  qed
qed

lemma group_needs_files:
  assumes "(gid, fs) \<in> set (groupFilesById files)"
  shows "length fs \<le> length files"
proof -
  from groupFilesById_member [OF assms] have "fs = filter (inGroup gid) files" by blast
  then show ?thesis by simp
qed

text \<open>
  C1, as the code has it. No exception is caught inside the loop over the groups. When a
  document of a complete group does not load (in the single-backend server: the main
  document or the attachment of a group with both), the exception reaches the handler of
  the request: the response is status 500 without an archive, whatever the other groups
  of the batch are.
\<close>

theorem load_failure_fails_request:
  "((gid, fs) \<in> set (groupFilesById files) \<and> 2 \<le> length fs \<and> f \<in> set fs
      \<and> load (buffer f) = Inl e
     \<longrightarrow> handler lc parse load ''POST'' files = Status500 ''Errore durante il merge PDF'')
   \<and> ((gid, g) \<in> set (groupSlots files) \<and> main g = Some m \<and> allegato g = Some a
      \<and> (load (buffer m) = Inl e \<or> load (buffer a) = Inl e)
     \<longrightarrow> mergePdfsRoute parse load files
         = Status500 (''Errore interno durante l'' @ [CHR 0x27] @ ''unione dei file.''))"
proof -
  have 1: "handler lc parse load ''POST'' files = Status500 ''Errore durante il merge PDF''"
    if h: "(gid, fs) \<in> set (groupFilesById files) \<and> 2 \<le> length fs \<and> f \<in> set fs
      \<and> load (buffer f) = Inl e"
  proof -
    from h group_needs_files [of gid fs files] have n: "\<not> length files < 2" by simp
    from h have "\<And>st. \<exists>x. mergeGroup lc parse load st (gid, fs) = Inl x"
      using mergeGroup_fails by blast
    with h mergeGroups_fails [of "(gid, fs)" "groupFilesById files" lc parse load "([], 0)"]
    obtain x where "mergeGroups lc parse load ([], 0) (groupFilesById files) = Inl x" by blast
    with n show ?thesis by (simp add: handler_def)
  qed
  have 2: "mergePdfsRoute parse load files
         = Status500 (''Errore interno durante l'' @ [CHR 0x27] @ ''unione dei file.'')"
    if h: "(gid, g) \<in> set (groupSlots files) \<and> main g = Some m \<and> allegato g = Some a
      \<and> (load (buffer m) = Inl e \<or> load (buffer a) = Inl e)"
  proof -
    from h have "files \<noteq> []" by (auto simp: groupSlots_def)
    then have n: "length files \<noteq> 0" by simp
    from h have "\<And>st. \<exists>x. mergePair parse load st (gid, g) = Inl x"
      using mergePair_fails by blast
    with h mergePairs_fails [of "(gid, g)" "groupSlots files" parse load "([], 0)"]
    obtain x where "mergePairs parse load ([], 0) (groupSlots files) = Inl x" by blast
    with n show ?thesis unfolding mergePdfsRoute_def by simp
  qed
  from 1 2 show ?thesis by blast
qed

text \<open>
  Against C1 as stated: the group 25-02050 merges when it is uploaded alone; uploaded
  together with a group whose attachment is unreadable, it is not in any output, and the
  request fails.
\<close>

theorem one_corrupt_group_counterexample:
  "handler codeUnitCompare textOf pagesOf ''POST'' (take 2 oneCorrupt)
     = Status200 [(''25-02050 - 25-02050 - Mario Rossi.pdf'', [1, 2, 3, 4, 5])]
   \<and> handler codeUnitCompare textOf pagesOf ''POST'' oneCorrupt
     = Status500 ''Errore durante il merge PDF''
   \<and> mergePdfsRoute textOf pagesOf (take 2 oneCorrupt)
     = Status200 [(''Mario Rossi.pdf'', [1, 2, 3, 4, 5])]
   \<and> mergePdfsRoute textOf pagesOf oneCorrupt
     = Status500 (''Errore interno durante l'' @ [CHR 0x27] @ ''unione dei file.'')"
  by code_simp

theorem load_failure_fails_request_witness:
  "(''25-02051'', drop 2 oneCorrupt) \<in> set (groupFilesById oneCorrupt)
   \<and> pagesOf (buffer (oneCorrupt ! 3)) = Inl ParseError
   \<and> handler codeUnitCompare textOf pagesOf ''POST'' oneCorrupt
     = Status500 ''Errore durante il merge PDF''
   \<and> (''25-02051'', \<lparr>main = Some (oneCorrupt ! 2), allegato = Some (oneCorrupt ! 3)\<rparr>)
       \<in> set (groupSlots oneCorrupt)
   \<and> mergePdfsRoute textOf pagesOf oneCorrupt
     = Status500 (''Errore interno durante l'' @ [CHR 0x27] @ ''unione dei file.'')"
proof -
  let ?g = "\<lparr>main = Some (oneCorrupt ! 2), allegato = Some (oneCorrupt ! 3)\<rparr>"
  have a: "(''25-02051'', drop 2 oneCorrupt) \<in> set (groupFilesById oneCorrupt)" by code_simp
  have b: "2 \<le> length (drop 2 oneCorrupt)" by code_simp
  have c: "oneCorrupt ! 3 \<in> set (drop 2 oneCorrupt)" by code_simp
  have d: "pagesOf (buffer (oneCorrupt ! 3)) = Inl ParseError" by code_simp
  have e: "(''25-02051'', ?g) \<in> set (groupSlots oneCorrupt)" by code_simp
  have f: "main ?g = Some (oneCorrupt ! 2)" "allegato ?g = Some (oneCorrupt ! 3)" by simp_all
  from load_failure_fails_request [of "''25-02051''" "drop 2 oneCorrupt" oneCorrupt
      "oneCorrupt ! 3" pagesOf ParseError codeUnitCompare textOf ?g "oneCorrupt ! 2" "oneCorrupt ! 3"]
    a b c d e f
  show ?thesis by blast
qed

section \<open>When the request fails\<close>

lemma loadedPages_ok: "load (buffer f) = Inr ps \<Longrightarrow> load (buffer f) = Inr (loadedPages load f)"
  by (simp add: loadedPages_def)

lemma mergeGroups_total:
  assumes "\<forall>g \<in> set gs. \<forall>f \<in> set (snd g).
             (\<exists>t. parse (buffer f) = Inr t) \<and> (\<exists>ps. load (buffer f) = Inr ps)"
  shows "\<exists>st'. mergeGroups lc parse load st gs = Inr st'"
  using assms
proof (induction gs arbitrary: st)
  case Nil
  show ?case by simp
next
  case (Cons g gs)
  have "\<exists>st1. mergeGroup lc parse load st g = Inr st1"
  proof (cases "length (snd g) < 2")
    case True
    then show ?thesis by (simp add: mergeGroup_def)
  next
    case False
    then have two: "2 \<le> length (snd g)" by simp
    from Cons.prems have l: "\<forall>f \<in> set (snd g). load (buffer f) = Inr (loadedPages load f)"
      by (auto intro: loadedPages_ok)
    from Cons.prems have t: "\<forall>f \<in> set (snd g). \<exists>t. parse (buffer f) = Inr t" by simp
    from mergeGroup_complete [where pg = "loadedPages load" and load = load and parse = parse,
        OF l t two, of lc "fst st" "snd st" "fst g"]
    show ?thesis by auto
  qed
  then obtain st1 where s1: "mergeGroup lc parse load st g = Inr st1" ..
  from Cons.prems have "\<forall>g \<in> set gs. \<forall>f \<in> set (snd g).
             (\<exists>t. parse (buffer f) = Inr t) \<and> (\<exists>ps. load (buffer f) = Inr ps)" by simp
  from Cons.IH [OF this, of st1] s1 show ?case by simp
qed

lemma mergePairs_total:
  assumes "\<forall>g \<in> set gs. \<forall>f. main (snd g) = Some f \<or> allegato (snd g) = Some f
             \<longrightarrow> (\<exists>ps. load (buffer f) = Inr ps)"
  shows "\<exists>st'. mergePairs parse load st gs = Inr st'"
  using assms
proof (induction gs arbitrary: st)
  case Nil
  show ?case by simp
next
  case (Cons g gs)
  have "\<exists>st1. mergePair parse load st g = Inr st1"
  proof (cases "completePair g")
    case False
    then have "main (snd g) = None \<or> allegato (snd g) = None" by (simp add: completePair_def)
    from mergePair_incomplete [OF this, of parse load st "fst g"] show ?thesis by simp
  next
    case True
    then obtain m a where ma: "main (snd g) = Some m" "allegato (snd g) = Some a"
      by (auto simp: completePair_def)
    with Cons.prems obtain pm pa where "load (buffer m) = Inr pm" "load (buffer a) = Inr pa"
      by (metis list.set_intros(1))
    from mergePair_complete [OF ma this, of parse "fst st" "snd st" "fst g"]
    show ?thesis by auto
  qed
  then obtain st1 where s1: "mergePair parse load st g = Inr st1" ..
  from Cons.prems have "\<forall>g \<in> set gs. \<forall>f. main (snd g) = Some f \<or> allegato (snd g) = Some f
             \<longrightarrow> (\<exists>ps. load (buffer f) = Inr ps)" by simp
  from Cons.IH [OF this, of st1] s1 show ?case by simp
qed

lemma groupSlots_members:
  assumes "(gid, g) \<in> set (groupSlots files)" and "main g = Some f \<or> allegato g = Some f"
  shows "f \<in> set files"
proof -
  from groupSlots_inv [of files] have d: "distinct (map fst (groupSlots files))"
    and m: "map_of (groupSlots files) gid =
      (if \<exists>f \<in> set files. extractGroupIdFromFilename (filename f) = Some gid
       then Some \<lparr>main = lastWhere (roleOf gid False) files,
                  allegato = lastWhere (roleOf gid True) files\<rparr>
       else None)" by blast+
  from d assms(1) have "map_of (groupSlots files) gid = Some g" by simp
  with m have "g = \<lparr>main = lastWhere (roleOf gid False) files,
                  allegato = lastWhere (roleOf gid True) files\<rparr>"
    by (simp split: if_splits)
  with assms(2) have "lastWhere (roleOf gid False) files = Some f
      \<or> lastWhere (roleOf gid True) files = Some f" by auto
  then show ?thesis by (auto dest: lastWhere_Some)
qed

lemma groupFilesById_members:
  assumes "(gid, fs) \<in> set (groupFilesById files)" and "f \<in> set fs"
  shows "f \<in> set files"
proof -
  from groupFilesById_member [OF assms(1)] have "fs = filter (inGroup gid) files" by blast
  with assms(2) show ?thesis by simp
qed

lemma handler_by_count:
  assumes m: "mergeGroups lc parse load ([], 0) (groupFilesById files) = Inr (archive, merged)"
  shows "merged = length (filter completeGroup (groupFilesById files))
       \<and> (merged = 0 \<longrightarrow> (\<exists>msg. handler lc parse load ''POST'' files = Status400 msg))
       \<and> (merged \<noteq> 0 \<longrightarrow> handler lc parse load ''POST'' files = Status200 archive)"
proof -
  have d: "distinct (map fst (groupFilesById files))"
    using groupFilesById_inv [of files] by blast
  have s: "\<forall>g \<in> set (groupFilesById files). list_all idChar (fst g)"
    using groupFilesById_keys_shaped [of _ _ files] by auto
  from mergeGroups_count [OF m d s, of "{}"]
  have c: "merged = length (filter completeGroup (groupFilesById files))" by simp
  have z: "merged = 0 \<Longrightarrow> \<exists>msg. handler lc parse load ''POST'' files = Status400 msg"
    using m by (simp add: handler_def)
  have p: "handler lc parse load ''POST'' files = Status200 archive" if "merged \<noteq> 0"
  proof -
    from that c have "filter completeGroup (groupFilesById files) \<noteq> []" by auto
    then obtain g where g: "g \<in> set (groupFilesById files)" "completeGroup g"
      by (metis filter_empty_conv)
    then have "(fst g, snd g) \<in> set (groupFilesById files)" by simp
    from group_needs_files [OF this] g(2) have "\<not> length files < 2"
      by (simp add: completeGroup_def)
    with m that show ?thesis by (simp add: handler_def)
  qed
  from c z p show ?thesis by blast
qed

lemma route_by_count:
  assumes m: "mergePairs parse load ([], 0) (groupSlots files) = Inr (archive, n)"
  shows "n = length (filter completePair (groupSlots files))
       \<and> (n = 0 \<longrightarrow> (\<exists>msg. mergePdfsRoute parse load files = Status400 msg))
       \<and> (n \<noteq> 0 \<longrightarrow> mergePdfsRoute parse load files = Status200 archive)"
proof -
  from mergePairs_count [OF m] have c: "n = length (filter completePair (groupSlots files))"
    by simp
  have z: "n = 0 \<Longrightarrow> \<exists>msg. mergePdfsRoute parse load files = Status400 msg"
    using m by (simp add: mergePdfsRoute_def)
  have p: "mergePdfsRoute parse load files = Status200 archive" if "n \<noteq> 0"
  proof -
    from that c have "groupSlots files \<noteq> []" by auto
    then have "files \<noteq> []" by (auto simp: groupSlots_def)
    with m that show ?thesis by (simp add: mergePdfsRoute_def)
  qed
  from c z p show ?thesis by blast
qed




section \<open>Pages of the merged outputs\<close>

lemma setEntry_fresh: "k \<notin> fst ` set al \<Longrightarrow> setEntry k v al = al @ [(k, v)]"
  by (induction al) auto

lemma appendPages_Inr:
  "appendPages load acc fs = Inr bytes \<Longrightarrow>
     bytes = acc @ mergedPages load fs \<and> (\<forall>f \<in> set fs. load (buffer f) = Inr (loadedPages load f))"
proof (induction fs arbitrary: acc)
  case Nil
  then show ?case by (simp add: mergedPages_def)
next
  case (Cons f fs)
  from Cons.prems obtain ps where l: "load (buffer f) = Inr ps"
    and r: "appendPages load (acc @ ps) fs = Inr bytes"
    by (auto split: sum.splits)
  from l have lp: "loadedPages load f = ps" by (simp add: loadedPages_def)
  from Cons.IH [OF r] l lp show ?case by (simp add: mergedPages_def)
qed

lemma length_mergedPages:
  "length (mergedPages load docs) = sum_list (map (length \<circ> loadedPages load) docs)"
  unfolding mergedPages_def by (rule length_concat_pages)

lemma mergeGroup_pages:
  assumes "mergeGroup lc parse load (archive, n) g = Inr (archive', n')"
  shows "if completeGroup g
         then (\<exists>name. archive'
                 = setEntry name (mergedPages load (sortBy (compareFiles lc) (snd g))) archive)
             \<and> (\<forall>f \<in> set (snd g). load (buffer f) = Inr (loadedPages load f))
         else archive' = archive"
proof (cases "completeGroup g")
  case False
  then have "length (snd g) < 2" by (simp add: completeGroup_def)
  then have "mergeGroup lc parse load (archive, n) g = Inr (archive, n)"
    by (simp add: mergeGroup_def)
  with assms False show ?thesis by simp
next
  case True
  then have nl: "\<not> length (snd g) < 2" by (simp add: completeGroup_def)
  let ?s = "sortBy (compareFiles lc) (snd g)"
  from assms nl obtain t bytes where
    a: "archive' = setEntry (handlerFilename (fst g) (fatturaOf t (fst g)) (intestatarioOf t))
                     bytes archive"
    and b: "appendPages load [] ?s = Inr bytes"
    unfolding mergeGroup_def Let_def by (auto split: list.splits sum.splits)
  from appendPages_Inr [OF b] have c: "bytes = mergedPages load ?s"
    and l: "\<forall>f \<in> set ?s. load (buffer f) = Inr (loadedPages load f)" by simp_all
  from l have "\<forall>f \<in> set (snd g). load (buffer f) = Inr (loadedPages load f)"
    by (simp add: set_sortBy)
  with a c True show ?thesis by auto
qed

lemma mergeGroups_length:
  assumes "mergeGroups lc parse load (archive, n) gs = Inr (archive', n')"
  shows "length archive' \<le> length archive + length (filter completeGroup gs)"
  using assms
proof (induction gs arbitrary: archive n)
  case Nil
  then show ?case by simp
next
  case (Cons g gs)
  from Cons.prems obtain a1 n1 where s1: "mergeGroup lc parse load (archive, n) g = Inr (a1, n1)"
    and r: "mergeGroups lc parse load (a1, n1) gs = Inr (archive', n')"
    by (auto split: sum.splits)
  from mergeGroup_pages [OF s1]
  have "length a1 \<le> length archive + (if completeGroup g then 1 else 0)"
    by (auto split: if_splits simp: length_setEntry)
  with Cons.IH [OF r] show ?case by auto
qed

text \<open>
  When the archive has grown by one entry for every complete group, no assignment has
  replaced an entry, and the entries are the merged documents in the order of the groups.
\<close>

lemma mergeGroups_pages:
  assumes "mergeGroups lc parse load (archive, n) gs = Inr (archive', n')"
    and "length archive' = length archive + length (filter completeGroup gs)"
  shows "map snd archive' = map snd archive
           @ map (\<lambda>g. mergedPages load (sortBy (compareFiles lc) (snd g))) (filter completeGroup gs)
       \<and> (\<forall>g \<in> set (filter completeGroup gs). \<forall>f \<in> set (snd g).
             load (buffer f) = Inr (loadedPages load f))"
  using assms
proof (induction gs arbitrary: archive n)
  case Nil
  then show ?case by simp
next
  case (Cons g gs)
  from Cons.prems(1) obtain a1 n1 where s1: "mergeGroup lc parse load (archive, n) g = Inr (a1, n1)"
    and r: "mergeGroups lc parse load (a1, n1) gs = Inr (archive', n')"
    by (auto split: sum.splits)
  from mergeGroups_length [OF r]
  have le: "length archive' \<le> length a1 + length (filter completeGroup gs)" .
  show ?case
  proof (cases "completeGroup g")
    case False
    with mergeGroup_pages [OF s1] have a1: "a1 = archive" by simp
    from Cons.prems(2) False have "length archive' = length a1 + length (filter completeGroup gs)"
      unfolding a1 by simp
    from Cons.IH [OF r this] False show ?thesis unfolding a1 by simp
  next
    case True
    let ?p = "mergedPages load (sortBy (compareFiles lc) (snd g))"
    from True mergeGroup_pages [OF s1] obtain name where
      a1: "a1 = setEntry name ?p archive"
      and l: "\<forall>f \<in> set (snd g). load (buffer f) = Inr (loadedPages load f)" by auto
    have fresh: "name \<notin> fst ` set archive"
    proof
      assume "name \<in> fst ` set archive"
      then have "length a1 = length archive" unfolding a1 by (simp add: length_setEntry)
      with le Cons.prems(2) True show False by simp
    qed
    then have a1': "a1 = archive @ [(name, ?p)]" unfolding a1 by (rule setEntry_fresh)
    from Cons.prems(2) True have "length archive' = length a1 + length (filter completeGroup gs)"
      unfolding a1' by simp
    from Cons.IH [OF r this] True l show ?thesis unfolding a1' by simp
  qed
qed

lemma handler_pages:
  assumes "handler lc parse load method files = Status200 archive"
  shows "map snd archive
           = map (\<lambda>g. mergedPages load (sortBy (compareFiles lc) (snd g)))
               (filter completeGroup (groupFilesById files))
       \<and> (\<forall>g \<in> set (filter completeGroup (groupFilesById files)). \<forall>f \<in> set (snd g).
             load (buffer f) = Inr (loadedPages load f))"
proof -
  from assms obtain n where
    m: "mergeGroups lc parse load ([], 0) (groupFilesById files) = Inr (archive, n)"
    unfolding handler_def by (auto split: if_splits sum.splits)
  from handler_names [OF assms]
  have "length archive = length [] + length (filter completeGroup (groupFilesById files))"
    by simp
  from mergeGroups_pages [OF m this] show ?thesis by simp
qed

lemma mergePair_pages:
  assumes "mergePair parse load (archive, n) g = Inr (archive', n')"
  shows "if completePair g
         then (\<exists>name. archive' = archive @ [(name, mergedPages load (slotFiles (snd g)))])
             \<and> (\<forall>f \<in> set (slotFiles (snd g)). load (buffer f) = Inr (loadedPages load f))
         else archive' = archive"
proof (cases "completePair g")
  case False
  then have "main (snd g) = None \<or> allegato (snd g) = None" by (simp add: completePair_def)
  then have "mergePair parse load (archive, n) g = Inr (archive, n)"
    by (auto simp: mergePair_def split: option.splits)
  with assms False show ?thesis by simp
next
  case True
  then obtain m a where ma: "main (snd g) = Some m" "allegato (snd g) = Some a"
    by (auto simp: completePair_def)
  let ?i1 = "extractIntestatario parse (buffer a)"
  let ?i = "if \<not> truthy ?i1 then extractIntestatario parse (buffer m) else ?i1"
  let ?b = "finalBaseOf ?i (fst g)"
  let ?name = "resolveCollision (map fst archive) ?b (?b @ ''.pdf'') 2"
  from assms ma obtain pm pa where e: "archive' = setEntry ?name (pm @ pa) archive"
    and lm: "load (buffer m) = Inr pm" and la: "load (buffer a) = Inr pa"
    unfolding mergePair_def Let_def by (auto split: sum.splits)
  have "?name \<notin> set (map fst archive)" by (rule resolveCollision_fresh)
  then have "?name \<notin> fst ` set archive" by simp
  from setEntry_fresh [OF this] e have e': "archive' = archive @ [(?name, pm @ pa)]" by simp
  from lm la have p: "loadedPages load m = pm" "loadedPages load a = pa"
    by (simp_all add: loadedPages_def)
  from ma p have "mergedPages load (slotFiles (snd g)) = pm @ pa"
    by (simp add: mergedPages_def slotFiles_def)
  moreover from ma lm la p
  have "\<forall>f \<in> set (slotFiles (snd g)). load (buffer f) = Inr (loadedPages load f)"
    by (simp add: slotFiles_def)
  ultimately show ?thesis using e' True by auto
qed

lemma mergePairs_pages:
  assumes "mergePairs parse load (archive, n) gs = Inr (archive', n')"
  shows "map snd archive' = map snd archive
           @ map (\<lambda>g. mergedPages load (slotFiles (snd g))) (filter completePair gs)
       \<and> (\<forall>g \<in> set (filter completePair gs). \<forall>f \<in> set (slotFiles (snd g)).
             load (buffer f) = Inr (loadedPages load f))"
  using assms
proof (induction gs arbitrary: archive n)
  case Nil
  then show ?case by simp
next
  case (Cons g gs)
  from Cons.prems obtain a1 n1 where s1: "mergePair parse load (archive, n) g = Inr (a1, n1)"
    and r: "mergePairs parse load (a1, n1) gs = Inr (archive', n')"
    by (auto split: sum.splits)
  show ?case
  proof (cases "completePair g")
    case False
    with mergePair_pages [OF s1] have a1: "a1 = archive" by simp
    from Cons.IH [OF r] False show ?thesis unfolding a1 by simp
  next
    case True
    with mergePair_pages [OF s1] obtain name where
      a1: "a1 = archive @ [(name, mergedPages load (slotFiles (snd g)))]"
      and l: "\<forall>f \<in> set (slotFiles (snd g)). load (buffer f) = Inr (loadedPages load f)" by auto
    from Cons.IH [OF r] True l show ?thesis unfolding a1 by simp
  qed
qed

lemma route_pages:
  assumes "mergePdfsRoute parse load files = Status200 archive"
  shows "map snd archive
           = map (\<lambda>g. mergedPages load (slotFiles (snd g))) (filter completePair (groupSlots files))
       \<and> (\<forall>g \<in> set (filter completePair (groupSlots files)). \<forall>f \<in> set (slotFiles (snd g)).
             load (buffer f) = Inr (loadedPages load f))"
proof -
  from assms obtain n where "mergePairs parse load ([], 0) (groupSlots files) = Inr (archive, n)"
    unfolding mergePdfsRoute_def by (auto split: if_splits sum.splits)
  from mergePairs_pages [OF this] show ?thesis by simp
qed

lemma slotFiles_last:
  assumes "g \<in> set (groupSlots files)" and "completePair g"
  shows "\<exists>m a. slotFiles (snd g) = [m, a] \<and> m \<noteq> a
           \<and> lastWhere (roleOf (fst g) False) files = Some m
           \<and> lastWhere (roleOf (fst g) True) files = Some a"
proof -
  from groupSlots_inv [of files] have d: "distinct (map fst (groupSlots files))"
    and m: "map_of (groupSlots files) (fst g) =
      (if \<exists>f \<in> set files. extractGroupIdFromFilename (filename f) = Some (fst g)
       then Some \<lparr>main = lastWhere (roleOf (fst g) False) files,
                  allegato = lastWhere (roleOf (fst g) True) files\<rparr>
       else None)" by blast+
  from assms(1) have "(fst g, snd g) \<in> set (groupSlots files)" by simp
  with d have "map_of (groupSlots files) (fst g) = Some (snd g)" by simp
  with m have g: "snd g = \<lparr>main = lastWhere (roleOf (fst g) False) files,
                  allegato = lastWhere (roleOf (fst g) True) files\<rparr>"
    by (simp split: if_splits)
  from assms(2) obtain m a where ma: "main (snd g) = Some m" "allegato (snd g) = Some a"
    by (auto simp: completePair_def)
  with g have l: "lastWhere (roleOf (fst g) False) files = Some m"
    "lastWhere (roleOf (fst g) True) files = Some a"
    by (metis slots.select_convs(1), metis slots.select_convs(2))
  then have "roleOf (fst g) False m" and "roleOf (fst g) True a" by (auto dest: lastWhere_Some)
  then have "m \<noteq> a" by (auto simp: roleOf_def)
  with ma l show ?thesis by (simp add: slotFiles_def)
qed

lemma handler_merges:
  assumes h: "\<forall>f \<in> set files. (\<exists>t. parse (buffer f) = Inr t) \<and> (\<exists>ps. load (buffer f) = Inr ps)"
    and c: "filter completeGroup (groupFilesById files) \<noteq> []"
  shows "\<exists>archive. handler lc parse load ''POST'' files = Status200 archive"
proof -
  have "\<forall>g \<in> set (groupFilesById files). \<forall>f \<in> set (snd g).
           (\<exists>t. parse (buffer f) = Inr t) \<and> (\<exists>ps. load (buffer f) = Inr ps)"
  proof (intro ballI)
    fix g f assume "g \<in> set (groupFilesById files)" "f \<in> set (snd g)"
    then have "(fst g, snd g) \<in> set (groupFilesById files)" by simp
    from groupFilesById_members [OF this \<open>f \<in> set (snd g)\<close>] h
    show "(\<exists>t. parse (buffer f) = Inr t) \<and> (\<exists>ps. load (buffer f) = Inr ps)" by blast
  qed
  from mergeGroups_total [OF this, of lc "([], 0)"] obtain archive merged where
    m: "mergeGroups lc parse load ([], 0) (groupFilesById files) = Inr (archive, merged)" by auto
  from handler_by_count [OF m] c have "handler lc parse load ''POST'' files = Status200 archive"
    by simp
  then show ?thesis ..
qed

lemma route_merges:
  assumes h: "\<forall>f \<in> set files. \<exists>ps. load (buffer f) = Inr ps"
    and c: "filter completePair (groupSlots files) \<noteq> []"
  shows "\<exists>archive. mergePdfsRoute parse load files = Status200 archive"
proof -
  have "\<forall>g \<in> set (groupSlots files). \<forall>f. main (snd g) = Some f \<or> allegato (snd g) = Some f
           \<longrightarrow> (\<exists>ps. load (buffer f) = Inr ps)"
  proof (intro ballI allI impI)
    fix g f assume "g \<in> set (groupSlots files)"
      and r: "main (snd g) = Some f \<or> allegato (snd g) = Some f"
    then have "(fst g, snd g) \<in> set (groupSlots files)" by simp
    from groupSlots_members [OF this r] h show "\<exists>ps. load (buffer f) = Inr ps" by blast
  qed
  from mergePairs_total [OF this, of parse "([], 0)"] obtain archive n where
    m: "mergePairs parse load ([], 0) (groupSlots files) = Inr (archive, n)" by auto
  from route_by_count [OF m] c have "mergePdfsRoute parse load files = Status200 archive"
    by simp
  then show ?thesis ..
qed

text \<open>
  C5, as the code has it. The outputs of a successful request are, in the order of the
  groups, one document for every complete group of the upload: the pages of the merged
  documents one document after the other, each document's pages in their own order, so
  that the page count is the sum of the page counts of the merged documents and a
  document without pages adds nothing. In the serverless handler the merged documents are
  all the files of the group (the uploads whose names hold its identifier), in sorted
  order, every file without the attachment marker before every attachment. In the
  single-backend server they are two: the last uploaded main document of the group, then
  the last uploaded attachment of the group; an earlier file of the same role is not
  merged. Every merged document has been loaded. The request is successful when a group
  is complete and the PDF libraries read every upload.
\<close>

theorem merged_pages_in_member_order:
  "(handler lc parse load method files = Status200 archive
      \<longrightarrow> map snd archive
            = map (\<lambda>g. mergedPages load (sortBy (compareFiles lc) (snd g)))
                (filter completeGroup (groupFilesById files))
        \<and> (\<forall>g \<in> set (filter completeGroup (groupFilesById files)).
              snd g = filter (inGroup (fst g)) files
            \<and> (\<forall>f \<in> set (snd g). load (buffer f) = Inr (loadedPages load f))
            \<and> set (sortBy (compareFiles lc) (snd g)) = set (snd g)
            \<and> length (sortBy (compareFiles lc) (snd g)) = length (snd g)
            \<and> attachmentsLast (sortBy (compareFiles lc) (snd g))
            \<and> length (mergedPages load (sortBy (compareFiles lc) (snd g)))
                = sum_list (map (length \<circ> loadedPages load) (snd g))))
   \<and> (mergePdfsRoute parse' load' files' = Status200 archive'
      \<longrightarrow> map snd archive'
            = map (\<lambda>g. mergedPages load' (slotFiles (snd g)))
                (filter completePair (groupSlots files'))
        \<and> (\<forall>g \<in> set (filter completePair (groupSlots files')).
              (\<exists>m a. slotFiles (snd g) = [m, a] \<and> m \<noteq> a
                 \<and> lastWhere (roleOf (fst g) False) files' = Some m
                 \<and> lastWhere (roleOf (fst g) True) files' = Some a
                 \<and> load' (buffer m) = Inr (loadedPages load' m)
                 \<and> load' (buffer a) = Inr (loadedPages load' a)
                 \<and> mergedPages load' (slotFiles (snd g))
                     = loadedPages load' m @ loadedPages load' a)
            \<and> length (mergedPages load' (slotFiles (snd g)))
                = sum_list (map (length \<circ> loadedPages load') (slotFiles (snd g)))))
   \<and> ((\<forall>f \<in> set files. (\<exists>t. parse (buffer f) = Inr t) \<and> (\<exists>ps. load (buffer f) = Inr ps))
        \<and> filter completeGroup (groupFilesById files) \<noteq> []
      \<longrightarrow> (\<exists>archive. handler lc parse load ''POST'' files = Status200 archive))
   \<and> ((\<forall>f \<in> set files'. \<exists>ps. load' (buffer f) = Inr ps)
        \<and> filter completePair (groupSlots files') \<noteq> []
      \<longrightarrow> (\<exists>archive. mergePdfsRoute parse' load' files' = Status200 archive))"
proof -
  have 1: "map snd archive
            = map (\<lambda>g. mergedPages load (sortBy (compareFiles lc) (snd g)))
                (filter completeGroup (groupFilesById files))
        \<and> (\<forall>g \<in> set (filter completeGroup (groupFilesById files)).
              snd g = filter (inGroup (fst g)) files
            \<and> (\<forall>f \<in> set (snd g). load (buffer f) = Inr (loadedPages load f))
            \<and> set (sortBy (compareFiles lc) (snd g)) = set (snd g)
            \<and> length (sortBy (compareFiles lc) (snd g)) = length (snd g)
            \<and> attachmentsLast (sortBy (compareFiles lc) (snd g))
            \<and> length (mergedPages load (sortBy (compareFiles lc) (snd g)))
                = sum_list (map (length \<circ> loadedPages load) (snd g)))"
    if h: "handler lc parse load method files = Status200 archive"
  proof -
    from handler_pages [OF h]
    have p: "map snd archive
            = map (\<lambda>g. mergedPages load (sortBy (compareFiles lc) (snd g)))
                (filter completeGroup (groupFilesById files))"
      and l: "\<forall>g \<in> set (filter completeGroup (groupFilesById files)). \<forall>f \<in> set (snd g).
             load (buffer f) = Inr (loadedPages load f)" by blast+
    have "snd g = filter (inGroup (fst g)) files
            \<and> (\<forall>f \<in> set (snd g). load (buffer f) = Inr (loadedPages load f))
            \<and> set (sortBy (compareFiles lc) (snd g)) = set (snd g)
            \<and> length (sortBy (compareFiles lc) (snd g)) = length (snd g)
            \<and> attachmentsLast (sortBy (compareFiles lc) (snd g))
            \<and> length (mergedPages load (sortBy (compareFiles lc) (snd g)))
                = sum_list (map (length \<circ> loadedPages load) (snd g))"
      if g: "g \<in> set (filter completeGroup (groupFilesById files))" for g
    proof -
      from g have "(fst g, snd g) \<in> set (groupFilesById files)" by simp
      from groupFilesById_member [OF this] have a: "snd g = filter (inGroup (fst g)) files"
        by blast
      from l g have b: "\<forall>f \<in> set (snd g). load (buffer f) = Inr (loadedPages load f)"
        by blast
      have s: "set (sortBy (compareFiles lc) (snd g)) = set (snd g)"
        by (rule set_sortBy)
      have n: "length (sortBy (compareFiles lc) (snd g)) = length (snd g)"
        by (rule length_sortBy)
      have c: "attachmentsLast (sortBy (compareFiles lc) (snd g))"
        by (rule attachmentsLast_sortBy)
      have d: "length (mergedPages load (sortBy (compareFiles lc) (snd g)))
                = sum_list (map (length \<circ> loadedPages load) (snd g))"
        by (simp only: length_mergedPages sum_list_sortBy)
      from a b s n c d show ?thesis by blast
    qed
    with p show ?thesis by blast
  qed
  have 2: "map snd archive'
            = map (\<lambda>g. mergedPages load' (slotFiles (snd g)))
                (filter completePair (groupSlots files'))
        \<and> (\<forall>g \<in> set (filter completePair (groupSlots files')).
              (\<exists>m a. slotFiles (snd g) = [m, a] \<and> m \<noteq> a
                 \<and> lastWhere (roleOf (fst g) False) files' = Some m
                 \<and> lastWhere (roleOf (fst g) True) files' = Some a
                 \<and> load' (buffer m) = Inr (loadedPages load' m)
                 \<and> load' (buffer a) = Inr (loadedPages load' a)
                 \<and> mergedPages load' (slotFiles (snd g))
                     = loadedPages load' m @ loadedPages load' a)
            \<and> length (mergedPages load' (slotFiles (snd g)))
                = sum_list (map (length \<circ> loadedPages load') (slotFiles (snd g))))"
    if h: "mergePdfsRoute parse' load' files' = Status200 archive'"
  proof -
    from route_pages [OF h]
    have p: "map snd archive'
            = map (\<lambda>g. mergedPages load' (slotFiles (snd g)))
                (filter completePair (groupSlots files'))"
      and l: "\<forall>g \<in> set (filter completePair (groupSlots files')). \<forall>f \<in> set (slotFiles (snd g)).
             load' (buffer f) = Inr (loadedPages load' f)" by blast+
    have "(\<exists>m a. slotFiles (snd g) = [m, a] \<and> m \<noteq> a
                 \<and> lastWhere (roleOf (fst g) False) files' = Some m
                 \<and> lastWhere (roleOf (fst g) True) files' = Some a
                 \<and> load' (buffer m) = Inr (loadedPages load' m)
                 \<and> load' (buffer a) = Inr (loadedPages load' a)
                 \<and> mergedPages load' (slotFiles (snd g))
                     = loadedPages load' m @ loadedPages load' a)
            \<and> length (mergedPages load' (slotFiles (snd g)))
                = sum_list (map (length \<circ> loadedPages load') (slotFiles (snd g)))"
      if g: "g \<in> set (filter completePair (groupSlots files'))" for g
    proof -
      from g have "g \<in> set (groupSlots files')" and "completePair g" by simp_all
      from slotFiles_last [OF this] obtain m a where s: "slotFiles (snd g) = [m, a]" "m \<noteq> a"
        "lastWhere (roleOf (fst g) False) files' = Some m"
        "lastWhere (roleOf (fst g) True) files' = Some a" by blast
      from l g have "\<forall>f \<in> set (slotFiles (snd g)). load' (buffer f) = Inr (loadedPages load' f)"
        by (rule bspec)
      then have "load' (buffer m) = Inr (loadedPages load' m)"
        and "load' (buffer a) = Inr (loadedPages load' a)" unfolding s(1) by simp_all
      moreover have "mergedPages load' (slotFiles (snd g))
                     = loadedPages load' m @ loadedPages load' a"
        unfolding s(1) by (simp add: mergedPages_def)
      moreover have "length (mergedPages load' (slotFiles (snd g)))
                = sum_list (map (length \<circ> loadedPages load') (slotFiles (snd g)))"
        by (rule length_mergedPages)
      ultimately show ?thesis using s by blast
    qed
    with p show ?thesis by blast
  qed
  have 3: "(\<forall>f \<in> set files. (\<exists>t. parse (buffer f) = Inr t) \<and> (\<exists>ps. load (buffer f) = Inr ps))
        \<and> filter completeGroup (groupFilesById files) \<noteq> []
      \<longrightarrow> (\<exists>archive. handler lc parse load ''POST'' files = Status200 archive)"
    using handler_merges [of files parse load lc] by blast
  have 4: "(\<forall>f \<in> set files'. \<exists>ps. load' (buffer f) = Inr ps)
        \<and> filter completePair (groupSlots files') \<noteq> []
      \<longrightarrow> (\<exists>archive. mergePdfsRoute parse' load' files' = Status200 archive)"
    using route_merges [of files' load' parse'] by blast
  from 1 2 3 4 show ?thesis by blast
qed

text \<open>
  Against C5 as stated: the three uploads are one group of the single-backend server, a
  main document and two attachments, of 3 + 2 + 2 = 7 pages. Its merged output has the 5
  pages of the main document and of the second attachment; the pages 4 and 5 of the first
  attachment are in no output. The serverless handler merges all 7 pages.
\<close>

theorem second_attachment_replaces_first_counterexample:
  "map (\<lambda>f. extractGroupIdFromFilename (filename f)) twoAttachments
     = [Some ''25-02050'', Some ''25-02050'', Some ''25-02050'']
   \<and> map (\<lambda>f. isAllegato (filename f)) twoAttachments = [False, True, True]
   \<and> map (\<lambda>f. pagesOf (buffer f)) twoAttachments = [Inr [1, 2, 3], Inr [4, 5], Inr [6, 7]]
   \<and> sum_list (map (length \<circ> loadedPages pagesOf) twoAttachments) = 7
   \<and> mergePdfsRoute textOf pagesOf twoAttachments
       = Status200 [(''Mario Rossi.pdf'', [1, 2, 3, 6, 7])]
   \<and> handler codeUnitCompare textOf pagesOf ''POST'' twoAttachments
       = Status200 [(''25-02050 - 25-02050 - Mario Rossi.pdf'', [1, 2, 3, 4, 5, 6, 7])]"
  by code_simp

theorem merged_pages_in_member_order_witness:
  "handler codeUnitCompare textOf pagesOf ''POST'' twoAttachments
     = Status200 [(''25-02050 - 25-02050 - Mario Rossi.pdf'', [1, 2, 3, 4, 5, 6, 7])]
   \<and> map (\<lambda>g. mergedPages pagesOf (sortBy (compareFiles codeUnitCompare) (snd g)))
        (filter completeGroup (groupFilesById twoAttachments)) = [[1, 2, 3, 4, 5, 6, 7]]
   \<and> mergePdfsRoute textOf pagesOf twoAttachments
       = Status200 [(''Mario Rossi.pdf'', [1, 2, 3, 6, 7])]
   \<and> map (\<lambda>g. mergedPages pagesOf (slotFiles (snd g)))
        (filter completePair (groupSlots twoAttachments)) = [[1, 2, 3, 6, 7]]
   \<and> map (\<lambda>g. slotFiles (snd g)) (filter completePair (groupSlots twoAttachments))
       = [[twoAttachments ! 0, twoAttachments ! 2]]
   \<and> handler codeUnitCompare textOf pagesOf ''POST'' zeroPageMain
       = Status200 [(''25-02050 - 25-02050 - Mario Rossi.pdf'', [1, 2, 3, 4])]
   \<and> mergePdfsRoute textOf pagesOf zeroPageMain = Status200 [(''Mario Rossi.pdf'', [1, 2, 3, 4])]"
proof -
  let ?h = "[(''25-02050 - 25-02050 - Mario Rossi.pdf'', [1::nat, 2, 3, 4, 5, 6, 7])]"
  let ?r = "[(''Mario Rossi.pdf'', [1::nat, 2, 3, 6, 7])]"
  have h: "handler codeUnitCompare textOf pagesOf ''POST'' twoAttachments = Status200 ?h"
    by code_simp
  have r: "mergePdfsRoute textOf pagesOf twoAttachments = Status200 ?r" by code_simp
  have s: "map (\<lambda>g. slotFiles (snd g)) (filter completePair (groupSlots twoAttachments))
       = [[twoAttachments ! 0, twoAttachments ! 2]]" by code_simp
  have z1: "handler codeUnitCompare textOf pagesOf ''POST'' zeroPageMain
       = Status200 [(''25-02050 - 25-02050 - Mario Rossi.pdf'', [1, 2, 3, 4])]" by code_simp
  have z2: "mergePdfsRoute textOf pagesOf zeroPageMain
       = Status200 [(''Mario Rossi.pdf'', [1, 2, 3, 4])]" by code_simp
  from merged_pages_in_member_order [of codeUnitCompare textOf pagesOf "''POST''" twoAttachments
      ?h textOf pagesOf twoAttachments ?r] h r
  have "map snd ?h = map (\<lambda>g. mergedPages pagesOf (sortBy (compareFiles codeUnitCompare) (snd g)))
        (filter completeGroup (groupFilesById twoAttachments))"
    and "map snd ?r = map (\<lambda>g. mergedPages pagesOf (slotFiles (snd g)))
        (filter completePair (groupSlots twoAttachments))" by blast+
  then have "map (\<lambda>g. mergedPages pagesOf (sortBy (compareFiles codeUnitCompare) (snd g)))
        (filter completeGroup (groupFilesById twoAttachments)) = [[1, 2, 3, 4, 5, 6, 7]]"
    and "map (\<lambda>g. mergedPages pagesOf (slotFiles (snd g)))
        (filter completePair (groupSlots twoAttachments)) = [[1, 2, 3, 6, 7]]" by simp_all
  with h r s z1 z2 show ?thesis by blast
qed

section \<open>Order of the attachments\<close>

lemma example_names:
  "toLowerCase (filename invoice) = ''25-02050.pdf''"
  "toLowerCase (filename attachment2) = ''25-02050_allegato2.pdf''"
  "toLowerCase (filename attachment10) = ''25-02050_allegato10.pdf''"
  by code_simp+

lemma example_markers:
  "\<not> stringIncludes ''25-02050.pdf'' ''allegato''"
  "stringIncludes ''25-02050_allegato2.pdf'' ''allegato''"
  "stringIncludes ''25-02050_allegato10.pdf'' ''allegato''"
  by code_simp+

lemma example_numbers:
  "allegatoNumber ''25-02050_allegato2.pdf'' = 2"
  "allegatoNumber ''25-02050_allegato10.pdf'' = 10"
  by code_simp+

lemma example_compareFiles:
  "compareFiles lc invoice attachment10 = - 1"
  "compareFiles lc attachment2 attachment10
     = lc ''25-02050_allegato2.pdf'' ''25-02050_allegato10.pdf''"
  unfolding compareFiles_def Let_def example_names using example_markers by simp_all

lemma example_orderCompare:
  "orderCompare lc invoice attachment2 = - 1"
  "orderCompare lc attachment2 attachment10 = - 8"
  unfolding orderCompare_def Let_def example_names using example_markers example_numbers
  by simp_all

text \<open>
  C7, at an input where the serverless handler departs from it. Its comparator has no
  attachment index: two attachments are compared by \<^verbatim>\<open>localeCompare\<close> of their names in
  small letters, and wherever the character 2 sorts after the character 1 (as in every
  collation that is not numeric) \<^verbatim>\<open>Allegato10\<close> is merged before \<^verbatim>\<open>Allegato2\<close>.
  \<^verbatim>\<open>orderGroupFiles\<close> of the in-browser variant compares the indices first and keeps
  the second attachment before the tenth, whatever the collation.
\<close>

theorem attachment_ten_before_two:
  assumes "0 < lc ''25-02050_allegato2.pdf'' ''25-02050_allegato10.pdf''"
  shows "sortBy (compareFiles lc) [invoice, attachment2, attachment10]
           = [invoice, attachment10, attachment2]
       \<and> orderGroupFiles lc [invoice, attachment2, attachment10]
           = [invoice, attachment2, attachment10]"
proof -
  have s: "sortBy (compareFiles lc) [invoice, attachment2, attachment10]
      = [invoice, attachment10, attachment2]"
    using assms by (simp add: sortBy_def example_compareFiles)
  have t: "orderGroupFiles lc [invoice, attachment2, attachment10]
      = [invoice, attachment2, attachment10]"
    unfolding orderGroupFiles_def by (simp add: sortBy_def example_orderCompare)
  from s t show ?thesis by blast
qed

theorem attachment_ten_before_two_witness:
  "0 < codeUnitCompare ''25-02050_allegato2.pdf'' ''25-02050_allegato10.pdf''
   \<and> sortBy (compareFiles codeUnitCompare) [invoice, attachment2, attachment10]
           = [invoice, attachment10, attachment2]
   \<and> orderGroupFiles codeUnitCompare [invoice, attachment2, attachment10]
           = [invoice, attachment2, attachment10]
   \<and> handler codeUnitCompare textOf pagesOf ''POST'' [invoice, attachment2, attachment10]
           = Status200 [(''25-02050 - 25-02050 - Mario Rossi.pdf'', [0, 10, 2])]"
proof -
  have h: "0 < codeUnitCompare ''25-02050_allegato2.pdf'' ''25-02050_allegato10.pdf''"
    by code_simp
  have r: "handler codeUnitCompare textOf pagesOf ''POST'' [invoice, attachment2, attachment10]
           = Status200 [(''25-02050 - 25-02050 - Mario Rossi.pdf'', [0, 10, 2])]" by code_simp
  from attachment_ten_before_two [of codeUnitCompare] h r show ?thesis by blast
qed

section \<open>Construction of the output name\<close>

lemma replaceFirst_nonempty: "s \<noteq> [] \<Longrightarrow> b \<noteq> [] \<Longrightarrow> replaceFirst a b s \<noteq> []"
  by (simp add: replaceFirst_def split: option.splits)

lemma safeFilenamePart_empty: "safeFilenamePart [] = []"
  by code_simp

lemma processFilesFilename_cases:
  assumes gid: "gid \<noteq> []"
  shows "processFilesFilename gid info =
     gid
     @ (case fatturaNo info of
          None \<Rightarrow> []
        | Some f \<Rightarrow> if f \<noteq> [] then '' - '' @ replaceFirst ''/'' ''-'' f else [])
     @ (case intestatario info of
          None \<Rightarrow> []
        | Some i \<Rightarrow> if safeFilenamePart i \<noteq> [] then '' - '' @ safeFilenamePart i else [])
     @ ''.pdf''"
proof -
  have f: "f \<noteq> [] \<Longrightarrow> replaceFirst ''/'' ''-'' f \<noteq> []" for f
    by (rule replaceFirst_nonempty) simp_all
  have e: "safeFilenamePart i \<noteq> [] \<Longrightarrow> i \<noteq> []" for i
    using safeFilenamePart_empty by auto
  show ?thesis
    unfolding processFilesFilename_def Let_def
    using gid
    by (cases "fatturaNo info"; cases "intestatario info")
       (auto simp: truthy_def List.map_filter_simps f safeFilenamePart_empty dest: e)
qed

text \<open>
  C8, as the code has it. The in-browser variant joins the identifier, the reference
  number when there is one (its slash as a hyphen) and the sanitized addressee when it is
  not empty. The single-backend server takes the sanitized addressee alone, or the
  identifier when no addressee was extracted. The serverless handler always builds
  identifier, reference and addressee: the reference defaults to the identifier with its
  hyphen as a slash, the addressee to \<^verbatim>\<open>Documento\<close>.
\<close>

theorem output_name_by_variant:
  "(gid \<noteq> [] \<and> fatturaNo info = Some f \<and> f \<noteq> [] \<and> intestatario info = Some i
      \<and> safeFilenamePart i \<noteq> []
     \<longrightarrow> processFilesFilename gid info
         = gid @ '' - '' @ replaceFirst ''/'' ''-'' f @ '' - '' @ safeFilenamePart i @ ''.pdf'')
   \<and> (gid \<noteq> [] \<and> \<not> truthy (fatturaNo info) \<and> intestatario info = Some i
      \<and> safeFilenamePart i \<noteq> []
     \<longrightarrow> processFilesFilename gid info = gid @ '' - '' @ safeFilenamePart i @ ''.pdf'')
   \<and> (gid \<noteq> [] \<and> fatturaNo info = Some f \<and> f \<noteq> [] \<and> intestatario info = None
     \<longrightarrow> processFilesFilename gid info = gid @ '' - '' @ replaceFirst ''/'' ''-'' f @ ''.pdf'')
   \<and> (gid \<noteq> [] \<and> \<not> truthy (fatturaNo info) \<and> intestatario info = None
     \<longrightarrow> processFilesFilename gid info = gid @ ''.pdf'')
   \<and> (i \<noteq> [] \<longrightarrow> finalBaseOf (Some i) gid = safePdfFileName i)
   \<and> finalBaseOf None gid = gid
   \<and> handlerFilename gid (fatturaOf text gid) (intestatarioOf text)
       = gid @ '' - '' @ safeName (replaceFirst ''/'' ''-'' (fatturaOf text gid)) @ '' - ''
         @ safeName (intestatarioOf text) @ ''.pdf''
   \<and> (search fatturaAt text = None \<longrightarrow> fatturaOf text gid = replaceFirst ''-'' ''/'' gid)
   \<and> (search intestatarioAt text = None \<and> searchAtBoundary drNameAt None text = None
     \<longrightarrow> intestatarioOf text = ''Documento'')"
proof -
  have nf: "\<not> truthy (fatturaNo info) \<Longrightarrow>
      (case fatturaNo info of None \<Rightarrow> []
       | Some f \<Rightarrow> if f \<noteq> [] then '' - '' @ replaceFirst ''/'' ''-'' f else []) = []"
    by (auto simp: truthy_def split: option.splits)
  have 1: "gid \<noteq> [] \<and> fatturaNo info = Some f \<and> f \<noteq> [] \<and> intestatario info = Some i
      \<and> safeFilenamePart i \<noteq> []
     \<longrightarrow> processFilesFilename gid info
         = gid @ '' - '' @ replaceFirst ''/'' ''-'' f @ '' - '' @ safeFilenamePart i @ ''.pdf''"
    by (auto simp: processFilesFilename_cases)
  have 2: "gid \<noteq> [] \<and> \<not> truthy (fatturaNo info) \<and> intestatario info = Some i
      \<and> safeFilenamePart i \<noteq> []
     \<longrightarrow> processFilesFilename gid info = gid @ '' - '' @ safeFilenamePart i @ ''.pdf''"
    using nf by (auto simp: processFilesFilename_cases)
  have 3: "gid \<noteq> [] \<and> fatturaNo info = Some f \<and> f \<noteq> [] \<and> intestatario info = None
     \<longrightarrow> processFilesFilename gid info = gid @ '' - '' @ replaceFirst ''/'' ''-'' f @ ''.pdf''"
    by (auto simp: processFilesFilename_cases)
  have 4: "gid \<noteq> [] \<and> \<not> truthy (fatturaNo info) \<and> intestatario info = None
     \<longrightarrow> processFilesFilename gid info = gid @ ''.pdf''"
    using nf by (auto simp: processFilesFilename_cases)
  have 5: "i \<noteq> [] \<longrightarrow> finalBaseOf (Some i) gid = safePdfFileName i"
    by (simp add: finalBaseOf_def)
  have 6: "finalBaseOf None gid = gid" by (simp add: finalBaseOf_def)
  have 7: "handlerFilename gid (fatturaOf text gid) (intestatarioOf text)
       = gid @ '' - '' @ safeName (replaceFirst ''/'' ''-'' (fatturaOf text gid)) @ '' - ''
         @ safeName (intestatarioOf text) @ ''.pdf''"
    by (simp add: handlerFilename_def)
  have 8: "search fatturaAt text = None \<longrightarrow> fatturaOf text gid = replaceFirst ''-'' ''/'' gid"
    by (simp add: fatturaOf_def)
  have 9: "search intestatarioAt text = None \<and> searchAtBoundary drNameAt None text = None
     \<longrightarrow> intestatarioOf text = ''Documento''"
    by (simp add: intestatarioOf_def)
  from 1 2 3 4 5 6 7 8 9 show ?thesis by blast
qed

text \<open>
  Against C8 as stated: without any metadata the serverless handler does not name the
  output by the bare identifier, and with the addressee alone it does not build
  identifier and addressee.
\<close>

theorem no_metadata_name_counterexample:
  "handler codeUnitCompare textOf pagesOf ''POST'' noMetadata
     = Status200 [(''25-02050 - 25-02050 - Documento.pdf'', [1, 2])]
   \<and> handlerFilename ''25-02050'' (fatturaOf ''Intestatario: Mario Rossi'' ''25-02050'')
        (intestatarioOf ''Intestatario: Mario Rossi'')
     = ''25-02050 - 25-02050 - Mario Rossi.pdf''"
  by code_simp

theorem output_name_by_variant_witness:
  "processFilesFilename ''25-02050''
       \<lparr>intestatario = Some ''Mario Rossi'', fatturaNo = Some ''25/02049''\<rparr>
     = ''25-02050 - 25-02049 - Mario Rossi.pdf''
   \<and> processFilesFilename ''25-02050'' \<lparr>intestatario = Some ''Mario Rossi'', fatturaNo = None\<rparr>
     = ''25-02050 - Mario Rossi.pdf''
   \<and> processFilesFilename ''25-02050'' \<lparr>intestatario = None, fatturaNo = Some ''25/02049''\<rparr>
     = ''25-02050 - 25-02049.pdf''
   \<and> processFilesFilename ''25-02050'' \<lparr>intestatario = None, fatturaNo = None\<rparr>
     = ''25-02050.pdf''
   \<and> finalBaseOf (Some ''Mario Rossi'') ''25-02050'' = ''Mario Rossi''
   \<and> finalBaseOf None ''25-02050'' = ''25-02050''
   \<and> handlerFilename ''25-02050'' (fatturaOf ''Gentile cliente'' ''25-02050'')
        (intestatarioOf ''Gentile cliente'') = ''25-02050 - 25-02050 - Documento.pdf''"
proof -
  let ?both = "\<lparr>intestatario = Some ''Mario Rossi'', fatturaNo = Some ''25/02049''\<rparr>"
  let ?name = "\<lparr>intestatario = Some ''Mario Rossi'', fatturaNo = None\<rparr>"
  let ?ref = "\<lparr>intestatario = None, fatturaNo = Some ''25/02049''\<rparr>"
  let ?none = "\<lparr>intestatario = None, fatturaNo = None\<rparr>"
  have s: "safeFilenamePart ''Mario Rossi'' = ''Mario Rossi''"
    "replaceFirst ''/'' ''-'' ''25/02049'' = ''25-02049''"
    "safePdfFileName ''Mario Rossi'' = ''Mario Rossi''" by code_simp+
  have t: "\<not> truthy (None :: string option)" by (simp add: truthy_def)
  have h: "search fatturaAt ''Gentile cliente'' = None"
    "search intestatarioAt ''Gentile cliente'' = None"
    "searchAtBoundary drNameAt None ''Gentile cliente'' = None" by code_simp+
  have r: "safeName (replaceFirst ''/'' ''-'' (replaceFirst ''-'' ''/'' ''25-02050'')) = ''25-02050''"
    "safeName ''Documento'' = ''Documento''" by code_simp+
  have g: "''25-02050'' \<noteq> []" "''25/02049'' \<noteq> []" "''Mario Rossi'' \<noteq> []"
    "safeFilenamePart ''Mario Rossi'' \<noteq> []" by (simp_all add: s)
  have sel: "fatturaNo ?both = Some ''25/02049''" "intestatario ?both = Some ''Mario Rossi''"
    "\<not> truthy (fatturaNo ?name)" "intestatario ?name = Some ''Mario Rossi''"
    "fatturaNo ?ref = Some ''25/02049''" "intestatario ?ref = None"
    "\<not> truthy (fatturaNo ?none)" "intestatario ?none = None" by (simp_all add: t)
  from output_name_by_variant [of "''25-02050''" ?both "''25/02049''" "''Mario Rossi''"] g sel
  have "processFilesFilename ''25-02050'' ?both
      = ''25-02050'' @ '' - '' @ replaceFirst ''/'' ''-'' ''25/02049'' @ '' - ''
        @ safeFilenamePart ''Mario Rossi'' @ ''.pdf''" by blast
  then have 1: "processFilesFilename ''25-02050'' ?both = ''25-02050 - 25-02049 - Mario Rossi.pdf''"
    unfolding s by simp
  from output_name_by_variant [of "''25-02050''" ?name _ "''Mario Rossi''"] g sel
  have "processFilesFilename ''25-02050'' ?name
      = ''25-02050'' @ '' - '' @ safeFilenamePart ''Mario Rossi'' @ ''.pdf''" by blast
  then have 2: "processFilesFilename ''25-02050'' ?name = ''25-02050 - Mario Rossi.pdf''"
    unfolding s by simp
  from output_name_by_variant [of "''25-02050''" ?ref "''25/02049''"] g sel
  have "processFilesFilename ''25-02050'' ?ref
      = ''25-02050'' @ '' - '' @ replaceFirst ''/'' ''-'' ''25/02049'' @ ''.pdf''" by blast
  then have 3: "processFilesFilename ''25-02050'' ?ref = ''25-02050 - 25-02049.pdf''"
    unfolding s by simp
  from output_name_by_variant [of "''25-02050''" ?none] g sel
  have "processFilesFilename ''25-02050'' ?none = ''25-02050'' @ ''.pdf''" by blast
  then have 4: "processFilesFilename ''25-02050'' ?none = ''25-02050.pdf''" by simp
  from output_name_by_variant [of "''25-02050''" ?none _ "''Mario Rossi''"] g
  have "finalBaseOf (Some ''Mario Rossi'') ''25-02050'' = safePdfFileName ''Mario Rossi''"
    and 6: "finalBaseOf None ''25-02050'' = ''25-02050''" by blast+
  then have 5: "finalBaseOf (Some ''Mario Rossi'') ''25-02050'' = ''Mario Rossi''"
    unfolding s by simp
  from output_name_by_variant [of "''25-02050''" ?none _ _ "''Gentile cliente''"] h
  have a: "handlerFilename ''25-02050'' (fatturaOf ''Gentile cliente'' ''25-02050'')
        (intestatarioOf ''Gentile cliente'')
       = ''25-02050'' @ '' - ''
         @ safeName (replaceFirst ''/'' ''-'' (fatturaOf ''Gentile cliente'' ''25-02050''))
         @ '' - '' @ safeName (intestatarioOf ''Gentile cliente'') @ ''.pdf''"
    and b: "fatturaOf ''Gentile cliente'' ''25-02050'' = replaceFirst ''-'' ''/'' ''25-02050''"
    and c: "intestatarioOf ''Gentile cliente'' = ''Documento''" by blast+
  have 7: "handlerFilename ''25-02050'' (fatturaOf ''Gentile cliente'' ''25-02050'')
        (intestatarioOf ''Gentile cliente'') = ''25-02050 - 25-02050 - Documento.pdf''"
    unfolding a unfolding b c r by simp
  from 1 2 3 4 5 6 7 show ?thesis by blast
qed

section \<open>The addressee part of the name\<close>

lemma safePdfFileName_nonempty: "safePdfFileName name \<noteq> []"
  by (simp add: safePdfFileName_def Let_def)

lemma safePdfFileName_default:
  "trim (collapseWhitespace (stripIllegal name)) = [] \<Longrightarrow> safePdfFileName name = ''Documento''"
  by (simp add: safePdfFileName_def)

lemma intestatarioOf_default:
  "search intestatarioAt text = None \<Longrightarrow> searchAtBoundary drNameAt None text = None
   \<Longrightarrow> intestatarioOf text = ''Documento''"
  by (simp add: intestatarioOf_def)

text \<open>
  C10, at an input where the serverless handler departs from it: the line
  \<^verbatim>\<open>Intestatario: ?\<close> matches the first pattern, so the default is not used, and
  \<^verbatim>\<open>safeName\<close> strips the question mark: the addressee part of the name is empty. (So it
  is when the text ends after \<^verbatim>\<open>Intestatario:\<close> and a space: the capture is the space.) The
  sanitizer of the single-backend server returns \<^verbatim>\<open>Documento\<close> for the same string.
\<close>

theorem handler_empty_addressee:
  "intestatarioOf ''Intestatario: ?'' = ''?''
   \<and> safeName ''?'' = []
   \<and> intestatarioOf ''Saldo 0,00 Intestatario: '' = '' ''
   \<and> safeName '' '' = []
   \<and> safePdfFileName ''?'' = ''Documento''
   \<and> handler codeUnitCompare textOf pagesOf ''POST'' unnamedAddressee
       = Status200 [(''25-02051 - 25-02051 - .pdf'', [7, 8])]"
  by code_simp

end
